theory Spec2Isabelle
  imports Main
begin

section \<open>Python exceptions raised by the modelled code\<close>

text \<open>
  Every exception of the modelled functions is a value of this type. The cache code
  raises \<^verbatim>\<open>ValueError\<close> with three different messages, and Python raises it when a
  list does not unpack into two names; each of these has its own constructor, so that
  theorems can tell them apart. (\<^verbatim>\<open>json.JSONDecodeError\<close> is a subclass of
  \<^verbatim>\<open>ValueError\<close> in Python; here it is a constructor of its own as well.)
  \<^item> \<open>ValueError_not_groups_of_3\<close>: \<^verbatim>\<open>load_existing_cache\<close>, "Cache file format error,
    not in groups of 3 lines";
  \<^item> \<open>ValueError_date_not_YYYYMMDD n\<close>: \<^verbatim>\<open>load_existing_cache\<close>, "date not YYYYMMDD,
    line n";
  \<^item> \<open>ValueError_not_in_cache url\<close>: \<^verbatim>\<open>get_rxnav_data\<close> in strict mode;
  \<^item> \<open>ValueError_unpack\<close>: unpacking a list message that is not a pair in
    \<^verbatim>\<open>cache_writer_task\<close>;
  \<^item> \<open>ConnectionError\<close>: \<^verbatim>\<open>get_rxnav_data\<close> after the last failed attempt;
  \<^item> \<open>JSONDecodeError\<close>: \<^verbatim>\<open>json.loads\<close> on a text that is not JSON;
  \<^item> \<open>IndexError\<close>: indexing an empty list;
  \<^item> \<open>ZeroDivisionError\<close>: float division by zero;
  \<^item> \<open>AttributeError\<close>: a method call on \<^verbatim>\<open>None\<close> (no cache file was opened);
  \<^item> \<open>UnsupportedOperation\<close>: writing to a file opened with mode \<^verbatim>\<open>'r'\<close>.
\<close>

datatype error =
    ValueError_not_groups_of_3
  | ValueError_date_not_YYYYMMDD nat
  | ValueError_not_in_cache string
  | ValueError_unpack
  | ConnectionError
  | JSONDecodeError
  | IndexError
  | ZeroDivisionError
  | AttributeError
  | UnsupportedOperation

section \<open>Partition of the work list (build\_rxnorm\_metadata.py, phases 1 and 2)\<close>

text \<open>
  \<^verbatim>\<open>rxcui_segsize = math.ceil(len(rxcui_list) / float(worker_process_count))\<close>.
  The quotient is a float; for list lengths below \<open>2 ^ 53\<close> the float quotient rounds
  up to the exact ceiling, which is what the model computes on natural numbers. A worker
  count of zero divides by zero. Phase 2 computes \<^verbatim>\<open>ndc_segsize\<close> by the same
  expression.
\<close>

definition segsize :: "nat \<Rightarrow> nat \<Rightarrow> error + nat" where
  "segsize n worker_process_count =
     (if worker_process_count = 0 then Inl ZeroDivisionError
      else Inr ((n + worker_process_count - 1) div worker_process_count))"

text \<open>Python's \<^verbatim>\<open>xs[a:b]\<close> for \<open>0 \<le> a\<close> and \<open>0 \<le> b\<close>: both ends are clamped to the list.\<close>

definition py_slice :: "'a list \<Rightarrow> nat \<Rightarrow> nat \<Rightarrow> 'a list" where
  "py_slice xs a b = take (b - a) (drop a xs)"

text \<open>
  The argument lists handed to the worker processes, in the order of the loop
  \<^verbatim>\<open>for idx in range(worker_process_count)\<close>: worker \<open>idx + 1\<close> receives
  \<^verbatim>\<open>rxcui_list[(rxcui_segsize * idx):(rxcui_segsize * (idx + 1))]\<close>.
\<close>

definition phase_segments :: "'a list \<Rightarrow> nat \<Rightarrow> error + 'a list list" where
  "phase_segments rxcui_list worker_process_count =
     (case segsize (length rxcui_list) worker_process_count of
        Inl e \<Rightarrow> Inl e
      | Inr s \<Rightarrow> Inr (map (\<lambda>idx. py_slice rxcui_list (s * idx) (s * (idx + 1)))
                        [0..<worker_process_count]))"

section \<open>The cache file as a text file (rxnav\_rest\_api\_mp.py)\<close>

text \<open>
  The cache file is opened with \<^verbatim>\<open>io.open(cache_filename, 'r' or 'a+', encoding='utf-8')\<close>.
  The model keeps the decoded text of the file and a cursor; a position is an index into
  that text, which is the byte offset for ASCII content. \<^verbatim>\<open>os.linesep\<close> is the line
  feed. Opening the file is assumed to succeed.

  The file object buffers its output. \<open>content\<close> is the text as the object itself sees
  it: what is on the disk, followed by the output that is still in its buffer.
  \<open>flushed\<close> is the length of the part that is on the disk, which is all that another
  process sees when it opens the file. \<^verbatim>\<open>print\<close> leaves its output in the buffer;
  \<^verbatim>\<open>flush\<close>, \<^verbatim>\<open>tell\<close> and \<^verbatim>\<open>seek\<close> hand the buffer to the disk, and so does
  closing the file, also when the process ends. (The library also empties a buffer that
  has run full; the model keeps the output in the buffer until one of these calls, so
  that \<open>on_disk\<close> is what is on the disk as long as the pending output fits the buffer.)
  In the modelled code every \<^verbatim>\<open>readline\<close> follows a \<^verbatim>\<open>seek\<close> with no \<^verbatim>\<open>print\<close>
  between them, so it finds the buffer empty and leaves \<open>flushed\<close> as it is.

  The file is read in Python's default universal-newlines mode: \<^verbatim>\<open>readline\<close> ends a
  line at a line feed, at a carriage return, or at a carriage return followed by a line
  feed, and returns the line with the terminator translated to one line feed. At the end
  of the file it returns the empty string.
\<close>

abbreviation LF :: char where "LF \<equiv> CHR 0x0A"
abbreviation CR :: char where "CR \<equiv> CHR 0x0D"

text \<open>\<^verbatim>\<open>def chomp(s): return s.rstrip('\n').rstrip('\r')\<close>\<close>

definition rstrip :: "char \<Rightarrow> string \<Rightarrow> string" where
  "rstrip c s = rev (dropWhile (\<lambda>x. x = c) (rev s))"

definition chomp :: "string \<Rightarrow> string" where
  "chomp s = rstrip CR (rstrip LF s)"

record text_file =
  content :: string
  pos :: nat
  flushed :: nat


definition flush :: "text_file \<Rightarrow> text_file" where
  "flush f = f\<lparr>flushed := length (content f)\<rparr>"

text \<open>What follows a carriage return: a line feed directly after it belongs to the same
  line terminator.\<close>

definition after_CR :: "string \<Rightarrow> string" where
  "after_CR cs = (case cs of [] \<Rightarrow> [] | d # ds \<Rightarrow> if d = LF then ds else cs)"

text \<open>\<open>readline_text s\<close> is the line read from the unread text \<open>s\<close> and the text left.\<close>

fun readline_text :: "string \<Rightarrow> string \<times> string" where
  "readline_text [] = ([], [])"
| "readline_text (c # cs) =
     (if c = LF then ([LF], cs)
      else if c = CR then ([LF], after_CR cs)
      else (case readline_text cs of (l, r) \<Rightarrow> (c # l, r)))"

definition readline :: "text_file \<Rightarrow> string \<times> text_file" where
  "readline f =
     (let unread = drop (pos f) (content f) in
      case readline_text unread of
        (l, r) \<Rightarrow> (l, f\<lparr>pos := pos f + (length unread - length r)\<rparr>))"

definition seek :: "nat \<Rightarrow> text_file \<Rightarrow> text_file" where
  "seek p f = (flush f)\<lparr>pos := p\<rparr>"

text \<open>\<^verbatim>\<open>f.seek(0, 2)\<close>\<close>

definition seek_to_EOF :: "text_file \<Rightarrow> text_file" where
  "seek_to_EOF f = (flush f)\<lparr>pos := length (content f)\<rparr>"

text \<open>\<^verbatim>\<open>f.tell()\<close>: the position, and the file object with its buffer emptied.\<close>

definition tell :: "text_file \<Rightarrow> nat \<times> text_file" where
  "tell f = (pos f, flush f)"

text \<open>
  \<^verbatim>\<open>print(s, file=f)\<close> on a file opened with \<^verbatim>\<open>'a+'\<close>: the text and a line feed
  are appended at the end of the file, wherever the cursor is, and the cursor ends at the
  new end of the file. The output stays in the buffer: \<open>flushed\<close> is as before.
\<close>

definition print_to_file :: "string \<Rightarrow> text_file \<Rightarrow> text_file" where
  "print_to_file s f =
     (let c = content f @ s @ [LF] in f\<lparr>content := c, pos := length c\<rparr>)"

text \<open>\<^verbatim>\<open>io.open\<close>: mode \<^verbatim>\<open>'r'\<close> starts at the top of the file, mode \<^verbatim>\<open>'a+'\<close> at its end.\<close>

definition io_open :: "string \<Rightarrow> bool \<Rightarrow> text_file" where
  "io_open text readonly =
     \<lparr>content = text, pos = (if readonly then 0 else length text), flushed = length text\<rparr>"

text \<open>\<^verbatim>\<open>[ f.readline() for idx_temp in range(3) ]\<close>\<close>

definition read_3_lines :: "text_file \<Rightarrow> string list \<times> text_file" where
  "read_3_lines f =
     (case readline f of (x1, f1) \<Rightarrow>
      case readline f1 of (x2, f2) \<Rightarrow>
      case readline f2 of (x3, f3) \<Rightarrow> ([x1, x2, x3], f3))"

subsection \<open>Reading makes progress\<close>

lemma after_CR_length: "length (after_CR cs) \<le> length cs"
  by (cases cs) (simp_all add: after_CR_def)

lemma readline_text_length: "length (snd (readline_text s)) \<le> length s"
  using after_CR_length by (induction s) (auto split: prod.splits simp: le_SucI)

lemma readline_text_length': "readline_text s = (l, r) \<Longrightarrow> length r \<le> length s"
  using readline_text_length[of s] by simp

lemma readline_text_progress:
  "fst (readline_text s) \<noteq> [] \<Longrightarrow> length (snd (readline_text s)) < length s"
  using after_CR_length
  by (induction s)
     (auto split: prod.splits simp: less_Suc_eq_le dest: readline_text_length')

lemma readline_pos_mono: "pos f \<le> pos (snd (readline f))"
  by (simp add: readline_def Let_def split: prod.splits)

lemma readline_content: "content (snd (readline f)) = content f"
  by (simp add: readline_def Let_def split: prod.splits)

lemma readline_progress:
  "fst (readline f) \<noteq> [] \<Longrightarrow>
     length (content f) - pos (snd (readline f)) < length (content f) - pos f"
  using readline_text_progress[of "drop (pos f) (content f)"]
        readline_text_length[of "drop (pos f) (content f)"]
  by (auto simp add: readline_def Let_def split: prod.splits)

lemma readline_text_Nil_iff: "fst (readline_text s) = [] \<longleftrightarrow> s = []"
  by (cases s) (auto split: prod.splits)

lemma readline_at_EOF: "length (content f) \<le> pos f \<Longrightarrow> readline f = ([], f)"
  by (simp add: readline_def)

lemma readline_Nil_iff: "fst (readline f) = [] \<longleftrightarrow> length (content f) \<le> pos f"
  using readline_text_Nil_iff[of "drop (pos f) (content f)"]
  by (auto simp: readline_def Let_def split: prod.splits)

lemma readline_measure:
  assumes "\<not> length (content f) \<le> pos f" "(l, f') = readline f"
  shows "length (content f') - pos f' < length (content f) - pos f"
proof -
  have "fst (readline f) \<noteq> []" using assms(1) readline_Nil_iff[of f] by simp
  then have "length (content f) - pos (snd (readline f)) < length (content f) - pos f"
    by (rule readline_progress)
  moreover have "f' = snd (readline f)" using assms(2) by (metis snd_conv)
  ultimately show ?thesis using readline_content[of f] by simp
qed

lemma read_3_lines_progress:
  assumes "read_3_lines f = (xs, f')" "length (filter (\<lambda>x. length x > 0) xs) = 3"
  shows "length (content f') - pos f' < length (content f) - pos f"
proof -
  obtain x1 f1 where r1: "readline f = (x1, f1)" by force
  obtain x2 f2 where r2: "readline f1 = (x2, f2)" by force
  obtain x3 f3 where r3: "readline f2 = (x3, f3)" by force
  have xs: "xs = [x1, x2, x3]" and f': "f' = f3"
    using assms(1) r1 r2 r3 by (auto simp: read_3_lines_def)
  have "x1 \<noteq> []" using assms(2) xs by (auto split: if_splits)
  then have a: "length (content f) - pos f1 < length (content f) - pos f"
    using readline_progress[of f] r1 by simp
  have b: "pos f1 \<le> pos f2" using readline_pos_mono[of f1] r2 by simp
  have c: "pos f2 \<le> pos f3" using readline_pos_mono[of f2] r3 by simp
  have "content f3 = content f" using r1 r2 r3 readline_content
    by (metis snd_conv)
  then show ?thesis using a b c f' by simp
qed

lemma load_round_progress:
  assumes "(p, f0) = tell f" "(xs, f') = read_3_lines f0"
      and "length (filter (\<lambda>x. length x > 0) xs) = 3"
  shows "length (content f') - pos f' < length (content f) - pos f"
  using read_3_lines_progress[of f0 xs f'] assms by (simp add: tell_def flush_def)

section \<open>The cache index and \<^verbatim>\<open>load_existing_cache\<close>\<close>

text \<open>\<^verbatim>\<open>self.rxnav_cache\<close>: request URL to (file position, data date).\<close>

type_synonym cache = "string \<rightharpoonup> nat \<times> string"

text \<open>
  The \<^verbatim>\<open>while True\<close> loop of \<^verbatim>\<open>load_existing_cache\<close>. Each round notes the position,
  reads three lines, keeps the non-empty ones, stops on none, raises on one or two, checks
  the length of the date and stores the entry. Log output and the entry counter, which
  only feeds the log, are left out.
\<close>

function load_loop :: "text_file \<Rightarrow> cache \<Rightarrow> nat \<Rightarrow> error + cache \<times> text_file" where
  "load_loop f rxnav_cache line_number =
     (case tell f of (file_position_of_cache_entry, f0) \<Rightarrow>
      case read_3_lines f0 of (lines3, f') \<Rightarrow>
      let rawlines = filter (\<lambda>x. length x > 0) lines3 in
      if length rawlines = 0 then Inr (rxnav_cache, f')
      else if length rawlines \<noteq> 3 then Inl ValueError_not_groups_of_3
      else
        let line_number' = line_number + 3;
            rest_api_url = chomp (rawlines ! 0);
            data_date = chomp (rawlines ! 1)
        in if length data_date \<noteq> 8
           then Inl (ValueError_date_not_YYYYMMDD (line_number' - 1))
           else load_loop f'
                  (rxnav_cache(rest_api_url \<mapsto> (file_position_of_cache_entry, data_date)))
                  line_number')"
  by pat_completeness auto
termination
  apply (relation "measure (\<lambda>(f, c, n). length (content f) - pos f)")
   apply simp
  apply (simp add: load_round_progress)
  done

text \<open>\<^verbatim>\<open>load_existing_cache\<close>: \<^verbatim>\<open>f.seek(0)\<close>, then the loop on the empty index.\<close>

definition load_existing_cache :: "text_file \<Rightarrow> error + cache \<times> text_file" where
  "load_existing_cache f = load_loop (seek 0 f) Map.empty 0"

section \<open>The interface object \<^verbatim>\<open>rxnav_rest_api_mp\<close>\<close>

text \<open>
  A message on the shared queue is any Python value; the model tells lists of strings,
  strings, and everything else apart.
\<close>

datatype py_msg = PyList "string list" | PyStr string | PyOther

text \<open>
  The fields of the object that the modelled methods read or write. \<open>requests_get_calls\<close>
  is not a field of the source: it counts the invocations of \<^verbatim>\<open>requests.get\<close>, so that
  theorems can speak about them. \<open>cache_writer_queue\<close> holds the messages put on the queue.
  The timing fields and the name tables of the source are not used by the modelled methods.
\<close>

record rxnav =
  readonly_access_to_cache :: bool
  forward_result_to_cache_writer :: bool
  fail_if_not_in_cache :: bool
  use_caching :: bool
  cache_writer_queue :: "py_msg list"
  rxnav_cache :: cache
  rxnav_cache_file :: "text_file option"
  rxnav_cache_file_at_EOF :: bool
  rxnav_cache_hits :: nat
  request_count :: nat
  rxnav_request_count :: nat
  requests_get_calls :: nat

text \<open>
  The constructor. \<open>cache_file\<close> is the text of the file named by \<^verbatim>\<open>cache_filename\<close>,
  or \<open>None\<close> when \<^verbatim>\<open>cache_filename is None\<close>.
\<close>

definition rxnav_rest_api_mp ::
  "string option \<Rightarrow> py_msg list \<Rightarrow> bool \<Rightarrow> bool \<Rightarrow> bool \<Rightarrow> error + rxnav" where
  "rxnav_rest_api_mp cache_file queue readonly forward strict =
     (let self = \<lparr>readonly_access_to_cache = readonly,
                  forward_result_to_cache_writer = forward,
                  fail_if_not_in_cache = strict,
                  use_caching = (cache_file \<noteq> None),
                  cache_writer_queue = queue,
                  rxnav_cache = Map.empty,
                  rxnav_cache_file = None,
                  rxnav_cache_file_at_EOF = True,
                  rxnav_cache_hits = 0,
                  request_count = 0,
                  rxnav_request_count = 0,
                  requests_get_calls = 0\<rparr>
      in case cache_file of
           None \<Rightarrow> Inr self
         | Some text \<Rightarrow>
             (case load_existing_cache (io_open text readonly) of
                Inl e \<Rightarrow> Inl e
              | Inr (c, f) \<Rightarrow> Inr (self\<lparr>rxnav_cache := c, rxnav_cache_file := Some f\<rparr>)))"

subsection \<open>\<^verbatim>\<open>get_rxnav_data\<close>\<close>

text \<open>
  One call of \<^verbatim>\<open>requests.get\<close> either raises a \<^verbatim>\<open>RequestException\<close> or returns a
  response, of which the code uses \<^verbatim>\<open>r.text\<close>. The remote service is a function from the
  URL and the number of the attempt (from 0) to the outcome of that attempt.
\<close>

datatype attempt = RequestException | Response string

text \<open>
  The retry loop \<^verbatim>\<open>for idx in range(retry_limit)\<close> over the list of its indices: the
  result is \<^verbatim>\<open>r\<close> (\<open>None\<close> when no attempt returned) and the number of calls of
  \<^verbatim>\<open>requests.get\<close>. The log output and the 15 seconds of sleep after a failure are left out.
\<close>

definition retry_limit :: nat where
  "retry_limit = 40"

fun comm_retry_loop :: "(nat \<Rightarrow> attempt) \<Rightarrow> nat list \<Rightarrow> string option \<times> nat" where
  "comm_retry_loop get [] = (None, 0)"
| "comm_retry_loop get (idx # idxs) =
     (case get idx of
        Response text \<Rightarrow> (Some text, 1)
      | RequestException \<Rightarrow>
          (case comm_retry_loop get idxs of (r, n) \<Rightarrow> (r, n + 1)))"

text \<open>
  \<^verbatim>\<open>json.loads\<close> is a parameter \<open>json_loads\<close> of the model, \<open>None\<close> where the library
  raises \<^verbatim>\<open>JSONDecodeError\<close>.
\<close>

definition py_json_loads :: "(string \<Rightarrow> 'j option) \<Rightarrow> string \<Rightarrow> error + 'j" where
  "py_json_loads json_loads text =
     (case json_loads text of None \<Rightarrow> Inl JSONDecodeError | Some v \<Rightarrow> Inr v)"

text \<open>
  \<^verbatim>\<open>get_rxnav_data\<close> returns the outcome of the call and the object after it. The
  periodic throughput report (every 500 requests) only writes to the log and is left out.
\<close>

definition get_rxnav_data ::
  "(string \<Rightarrow> 'j option) \<Rightarrow> (string \<Rightarrow> nat \<Rightarrow> attempt) \<Rightarrow> string \<Rightarrow> rxnav
     \<Rightarrow> (error + 'j) \<times> rxnav" where
  "get_rxnav_data json_loads requests_get request_url self0 =
     (let self = self0\<lparr>request_count := request_count self0 + 1\<rparr> in
      if use_caching self \<and> rxnav_cache self request_url \<noteq> None then
        (let self = self\<lparr>rxnav_cache_hits := rxnav_cache_hits self + 1\<rparr> in
         case rxnav_cache_file self of
           None \<Rightarrow> (Inl AttributeError, self)
         | Some f \<Rightarrow>
             (let file_position_of_cache_entry = fst (the (rxnav_cache self request_url));
                  f0 = seek file_position_of_cache_entry f;
                  f1 = snd (readline f0);
                  f2 = snd (readline f1);
                  (line3, f3) = readline f2;
                  json_text = chomp line3
              in (py_json_loads json_loads json_text,
                  self\<lparr>rxnav_cache_file := Some f3, rxnav_cache_file_at_EOF := False\<rparr>)))
      else if fail_if_not_in_cache self then
        (Inl (ValueError_not_in_cache request_url), self)
      else
        (case comm_retry_loop (requests_get request_url) [0..<retry_limit] of
           (r, calls) \<Rightarrow>
             (let self = self\<lparr>requests_get_calls := requests_get_calls self + calls\<rparr> in
              case r of
                None \<Rightarrow> (Inl ConnectionError, self)
              | Some text \<Rightarrow>
                  (case json_loads text of
                     None \<Rightarrow> (Inl JSONDecodeError, self)
                   | Some result \<Rightarrow>
                       (let self = self\<lparr>rxnav_request_count := rxnav_request_count self + 1\<rparr>;
                            self = (if forward_result_to_cache_writer self
                                    then self\<lparr>cache_writer_queue :=
                                           cache_writer_queue self @ [PyList [request_url, text]]\<rparr>
                                    else self)
                        in (Inr result, self))))))"

subsection \<open>\<^verbatim>\<open>write_cache_entry\<close>\<close>

text \<open>
  \<open>data_date\<close> is \<^verbatim>\<open>'{:%Y%m%d}'.format(datetime.datetime.now())\<close>, the reading of the
  clock at the call. The method has no \<^verbatim>\<open>return\<close> statement: on success its value is
  Python's \<^verbatim>\<open>None\<close>, here \<open>Inr None\<close>.
\<close>

definition write_cache_entry ::
  "string \<Rightarrow> string \<Rightarrow> string \<Rightarrow> rxnav \<Rightarrow> (error + nat option) \<times> rxnav" where
  "write_cache_entry data_date request_url json_string self =
     (case rxnav_cache_file self of
        None \<Rightarrow> (Inl AttributeError, self)
      | Some f \<Rightarrow>
          (let (f, self) =
                 (if \<not> rxnav_cache_file_at_EOF self
                  then (seek_to_EOF f, self\<lparr>rxnav_cache_file_at_EOF := True\<rparr>)
                  else (f, self));
               (file_position, f) = tell f
           in if readonly_access_to_cache self
              then (Inl UnsupportedOperation, self\<lparr>rxnav_cache_file := Some f\<rparr>)
              else
                (let f = print_to_file (request_url @ [LF] @ data_date @ [LF] @ json_string) f
                 in (Inr None,
                     self\<lparr>rxnav_cache_file := Some f,
                          rxnav_cache := (rxnav_cache self)(request_url \<mapsto> (file_position, data_date))\<rparr>))))"

section \<open>The Cache Writer process (build\_rxnorm\_metadata.py)\<close>

text \<open>
  The loop of \<^verbatim>\<open>cache_writer_task\<close> over the messages that \<^verbatim>\<open>mp_queue.get()\<close> delivers,
  in order. When the messages run out the process waits in \<^verbatim>\<open>get()\<close>: \<open>Blocked\<close>.
  \<open>clock n\<close> is the date at the write of entry number \<open>n\<close> (from 0).
\<close>

datatype writer_outcome =
    Terminated rxnav nat
  | Failed error
  | Blocked rxnav nat

fun cache_writer_loop :: "(nat \<Rightarrow> string) \<Rightarrow> py_msg list \<Rightarrow> rxnav \<Rightarrow> nat \<Rightarrow> writer_outcome" where
  "cache_writer_loop clock [] rxnav count = Blocked rxnav count"
| "cache_writer_loop clock (PyList m # ms) rxnav count =
     (case m of
        [request_url, json_result_string] \<Rightarrow>
          (case write_cache_entry (clock count) request_url json_result_string rxnav of
             (Inl e, rxnav') \<Rightarrow> Failed e
           | (Inr v, rxnav') \<Rightarrow> cache_writer_loop clock ms rxnav' (count + 1))
      | _ \<Rightarrow> Failed ValueError_unpack)"
| "cache_writer_loop clock (m # ms) rxnav count =
     (if m = PyStr ''kill'' then Terminated rxnav count
      else cache_writer_loop clock ms rxnav count)"

definition cache_writer_task ::
  "(nat \<Rightarrow> string) \<Rightarrow> py_msg list \<Rightarrow> string \<Rightarrow> writer_outcome" where
  "cache_writer_task clock mp_queue cache_file =
     (case rxnav_rest_api_mp (Some cache_file) [] False False False of
        Inl e \<Rightarrow> Failed e
      | Inr rxnav \<Rightarrow> cache_writer_loop clock mp_queue rxnav 0)"

section \<open>The worker processes (build\_rxnorm\_metadata.py)\<close>

text \<open>Python's \<^verbatim>\<open>xs[i]\<close>, where \<^verbatim>\<open>xs[-1]\<close> is the last element; out of range it raises.\<close>

definition py_index :: "'a list \<Rightarrow> int \<Rightarrow> error + 'a" where
  "py_index xs i =
     (if 0 \<le> i \<and> i < int (length xs) then Inr (xs ! nat i)
      else if i < 0 \<and> - i \<le> int (length xs) then Inr (xs ! nat (int (length xs) + i))
      else Inl IndexError)"

text \<open>What a worker has done, in order, as far as the other processes can tell.\<close>

datatype event =
    LogOpened
  | Announced nat
  | CacheSnapshotLoaded
  | BarrierWait
  | Finished

text \<open>
  \<^verbatim>\<open>get_allrelated\<close>, \<^verbatim>\<open>get_historical_rxcui\<close>: the URL is built from the code with
  \<^verbatim>\<open>'%s' % rxcui\<close>, the parameter \<open>str\<close>, and handed to \<^verbatim>\<open>get_rxnav_data\<close>.
\<close>

definition get_allrelated ::
  "(string \<Rightarrow> 'j option) \<Rightarrow> (string \<Rightarrow> nat \<Rightarrow> attempt) \<Rightarrow> ('c \<Rightarrow> string) \<Rightarrow> 'c \<Rightarrow> rxnav
     \<Rightarrow> (error + 'j) \<times> rxnav" where
  "get_allrelated json_loads requests_get str rxcui self =
     get_rxnav_data json_loads requests_get
       (''https://rxnav.nlm.nih.gov/REST/rxcui/'' @ str rxcui @ ''/allrelated.json'') self"

definition get_historical_rxcui ::
  "(string \<Rightarrow> 'j option) \<Rightarrow> (string \<Rightarrow> nat \<Rightarrow> attempt) \<Rightarrow> ('c \<Rightarrow> string) \<Rightarrow> 'c \<Rightarrow> rxnav
     \<Rightarrow> (error + 'j) \<times> rxnav" where
  "get_historical_rxcui json_loads requests_get str rxcui self =
     get_rxnav_data json_loads requests_get
       (''https://rxnav.nlm.nih.gov/REST/rxcuihistory/concept.json?rxcui='' @ str rxcui) self"

text \<open>
  \<^verbatim>\<open>get_ndc_codes_for_drug\<close>: the request, then the extraction of the NDC codes from the
  parsed document, the parameter \<open>ndcs_of\<close>, which may raise on a document of another shape.
\<close>

definition get_ndc_codes_for_drug ::
  "(string \<Rightarrow> 'j option) \<Rightarrow> (string \<Rightarrow> nat \<Rightarrow> attempt) \<Rightarrow> ('c \<Rightarrow> string)
     \<Rightarrow> ('j \<Rightarrow> error + string set) \<Rightarrow> 'c \<Rightarrow> rxnav \<Rightarrow> (error + string set) \<times> rxnav" where
  "get_ndc_codes_for_drug json_loads requests_get str ndcs_of drug_rxcui self =
     (case get_rxnav_data json_loads requests_get
             (''https://rxnav.nlm.nih.gov/REST/rxcui/'' @ str drug_rxcui @ ''/allhistoricalndcs/json'')
             self of
        (Inl e, self') \<Rightarrow> (Inl e, self')
      | (Inr d, self') \<Rightarrow> (ndcs_of d, self'))"

text \<open>The loops \<^verbatim>\<open>for idx, rxcui in enumerate(...)\<close> of the two workers, without the log.\<close>

fun rxcuis_loop ::
  "(string \<Rightarrow> 'j option) \<Rightarrow> (string \<Rightarrow> nat \<Rightarrow> attempt) \<Rightarrow> ('c \<Rightarrow> string) \<Rightarrow> 'c list \<Rightarrow> rxnav
     \<Rightarrow> (error + unit) \<times> rxnav" where
  "rxcuis_loop json_loads requests_get str [] rxnav = (Inr (), rxnav)"
| "rxcuis_loop json_loads requests_get str (rxcui # rest) rxnav =
     (case get_allrelated json_loads requests_get str rxcui rxnav of
        (Inl e, rxnav1) \<Rightarrow> (Inl e, rxnav1)
      | (Inr d1, rxnav1) \<Rightarrow>
          (case get_historical_rxcui json_loads requests_get str rxcui rxnav1 of
             (Inl e, rxnav2) \<Rightarrow> (Inl e, rxnav2)
           | (Inr d2, rxnav2) \<Rightarrow> rxcuis_loop json_loads requests_get str rest rxnav2))"

fun ndcs_loop ::
  "(string \<Rightarrow> 'j option) \<Rightarrow> (string \<Rightarrow> nat \<Rightarrow> attempt) \<Rightarrow> ('c \<Rightarrow> string)
     \<Rightarrow> ('j \<Rightarrow> error + string set) \<Rightarrow> 'c list \<Rightarrow> rxnav \<Rightarrow> (error + unit) \<times> rxnav" where
  "ndcs_loop json_loads requests_get str ndcs_of [] rxnav = (Inr (), rxnav)"
| "ndcs_loop json_loads requests_get str ndcs_of (rxcui # rest) rxnav =
     (case get_ndc_codes_for_drug json_loads requests_get str ndcs_of rxcui rxnav of
        (Inl e, rxnav1) \<Rightarrow> (Inl e, rxnav1)
      | (Inr s, rxnav1) \<Rightarrow> ndcs_loop json_loads requests_get str ndcs_of rest rxnav1)"

text \<open>
  \<^verbatim>\<open>worker_task_rxcuis\<close> and \<^verbatim>\<open>worker_task_ndcs\<close>. The first \<^verbatim>\<open>print\<close> formats
  \<^verbatim>\<open>len(rxcui_code_list), rxcui_code_list[0], rxcui_code_list[-1]\<close>, in this order,
  before the interface object is made. The result is the outcome of the process, its
  events, and the messages on the queue when it ends.
\<close>

definition worker_task_rxcuis ::
  "(string \<Rightarrow> 'j option) \<Rightarrow> (string \<Rightarrow> nat \<Rightarrow> attempt) \<Rightarrow> ('c \<Rightarrow> string) \<Rightarrow> py_msg list
     \<Rightarrow> string \<Rightarrow> 'c list \<Rightarrow> (error + unit) \<times> event list \<times> py_msg list" where
  "worker_task_rxcuis json_loads requests_get str mp_queue cache_file rxcui_code_list =
     (case py_index rxcui_code_list 0 of
        Inl e \<Rightarrow> (Inl e, [LogOpened], mp_queue)
      | Inr first_code \<Rightarrow>
     (case py_index rxcui_code_list (- 1) of
        Inl e \<Rightarrow> (Inl e, [LogOpened], mp_queue)
      | Inr last_code \<Rightarrow>
     (case rxnav_rest_api_mp (Some cache_file) mp_queue True True False of
        Inl e \<Rightarrow> (Inl e, [LogOpened, Announced (length rxcui_code_list)], mp_queue)
      | Inr rxnav \<Rightarrow>
     (case rxcuis_loop json_loads requests_get str rxcui_code_list rxnav of
        (Inl e, rxnav') \<Rightarrow>
          (Inl e,
           [LogOpened, Announced (length rxcui_code_list), CacheSnapshotLoaded, BarrierWait],
           cache_writer_queue rxnav')
      | (Inr u, rxnav') \<Rightarrow>
          (Inr (),
           [LogOpened, Announced (length rxcui_code_list), CacheSnapshotLoaded, BarrierWait,
            Finished],
           cache_writer_queue rxnav')))))"

definition worker_task_ndcs ::
  "(string \<Rightarrow> 'j option) \<Rightarrow> (string \<Rightarrow> nat \<Rightarrow> attempt) \<Rightarrow> ('c \<Rightarrow> string)
     \<Rightarrow> ('j \<Rightarrow> error + string set) \<Rightarrow> py_msg list
     \<Rightarrow> string \<Rightarrow> 'c list \<Rightarrow> (error + unit) \<times> event list \<times> py_msg list" where
  "worker_task_ndcs json_loads requests_get str ndcs_of mp_queue cache_file drug_rxcui_list =
     (case py_index drug_rxcui_list 0 of
        Inl e \<Rightarrow> (Inl e, [LogOpened], mp_queue)
      | Inr first_code \<Rightarrow>
     (case py_index drug_rxcui_list (- 1) of
        Inl e \<Rightarrow> (Inl e, [LogOpened], mp_queue)
      | Inr last_code \<Rightarrow>
     (case rxnav_rest_api_mp (Some cache_file) mp_queue True True False of
        Inl e \<Rightarrow> (Inl e, [LogOpened, Announced (length drug_rxcui_list)], mp_queue)
      | Inr rxnav \<Rightarrow>
     (case ndcs_loop json_loads requests_get str ndcs_of drug_rxcui_list rxnav of
        (Inl e, rxnav') \<Rightarrow>
          (Inl e,
           [LogOpened, Announced (length drug_rxcui_list), CacheSnapshotLoaded, BarrierWait],
           cache_writer_queue rxnav')
      | (Inr u, rxnav') \<Rightarrow>
          (Inr (),
           [LogOpened, Announced (length drug_rxcui_list), CacheSnapshotLoaded, BarrierWait,
            Finished],
           cache_writer_queue rxnav')))))"

section \<open>Notions used to state the properties\<close>

text \<open>
  The flag \<^verbatim>\<open>rxnav_cache_file_at_EOF\<close> tells the truth: when it is set, the cursor of the
  cache file is at the end of the file.
\<close>

definition cache_file_at_EOF_ok :: "rxnav \<Rightarrow> bool" where
  "cache_file_at_EOF_ok self =
     (case rxnav_cache_file self of
        None \<Rightarrow> True
      | Some f \<Rightarrow> rxnav_cache_file_at_EOF self \<longrightarrow> pos f = length (content f))"

text \<open>
  The text of the first line of a text, without its end of line, and the text after
  that line. An end of line is a line feed, a carriage return, or a carriage return
  followed by a line feed.
\<close>

definition line_text :: "string \<Rightarrow> string" where
  "line_text s = takeWhile (\<lambda>c. c \<noteq> LF \<and> c \<noteq> CR) s"

definition after_line :: "string \<Rightarrow> string" where
  "after_line s =
     (case dropWhile (\<lambda>c. c \<noteq> LF \<and> c \<noteq> CR) s of
        [] \<Rightarrow> []
      | c # cs \<Rightarrow> if c = CR \<and> take 1 cs = [LF] then drop 1 cs else cs)"

text \<open>The third line of a text from a position on: the payload line of the record that
  starts at that position.\<close>

definition third_line_at :: "string \<Rightarrow> nat \<Rightarrow> string" where
  "third_line_at body p = line_text (after_line (after_line (drop p body)))"

text \<open>
  The lines of a file from the cursor on, as \<^verbatim>\<open>readline\<close> delivers them, each with the
  position at which it starts.
\<close>

function file_lines :: "text_file \<Rightarrow> (nat \<times> string) list" where
  "file_lines f =
     (if length (content f) \<le> pos f then []
      else case readline f of (l, f') \<Rightarrow> (pos f, l) # file_lines f')"
  by pat_completeness auto
termination
  apply (relation "measure (\<lambda>f. length (content f) - pos f)")
   apply simp
  apply (auto simp add: readline_measure)
  done

declare file_lines.simps [simp del]

text \<open>
  The records of a list of lines: every full group of three lines gives the URL, the
  position at which the group starts, and the date, both without their end of line.
\<close>

fun records :: "(nat \<times> string) list \<Rightarrow> (string \<times> nat \<times> string) list" where
  "records ((p1, l1) # (p2, l2) # (p3, l3) # rest) = (chomp l1, (p1, chomp l2)) # records rest"
| "records ls = []"

text \<open>The lines and the records of the whole cache file.\<close>

definition cache_lines :: "text_file \<Rightarrow> (nat \<times> string) list" where
  "cache_lines f = file_lines (seek 0 f)"

definition cache_records :: "text_file \<Rightarrow> (string \<times> nat \<times> string) list" where
  "cache_records f = records (cache_lines f)"

text \<open>Every record carries a date of eight characters.\<close>

definition dates_ok :: "(string \<times> nat \<times> string) list \<Rightarrow> bool" where
  "dates_ok rs = (\<forall>r \<in> set rs. length (snd (snd r)) = 8)"


text \<open>
  The loop of \<^verbatim>\<open>load_existing_cache\<close> told on the list of lines: the index after the
  last line, or the error. It is only used to reason about \<open>load_loop\<close>.
\<close>

fun index_of_lines :: "(nat \<times> string) list \<Rightarrow> cache \<Rightarrow> nat \<Rightarrow> error + cache" where
  "index_of_lines [] c n = Inr c"
| "index_of_lines ((p1, l1) # (p2, l2) # (p3, l3) # rest) c n =
     (if length (chomp l2) \<noteq> 8 then Inl (ValueError_date_not_YYYYMMDD (n + 3 - 1))
      else index_of_lines rest (c(chomp l1 \<mapsto> (p1, chomp l2))) (n + 3))"
| "index_of_lines ls c n = Inl ValueError_not_groups_of_3"

text \<open>The messages that are neither a list nor the string \<^verbatim>\<open>'kill'\<close>.\<close>

definition writer_skips :: "py_msg \<Rightarrow> bool" where
  "writer_skips m =
     (case m of PyList xs \<Rightarrow> False | PyStr s \<Rightarrow> s \<noteq> ''kill'' | PyOther \<Rightarrow> True)"

subsection \<open>Concrete inputs\<close>

text \<open>A clock that shows one date during the whole run.\<close>

definition clock_stopped_at :: "string \<Rightarrow> nat \<Rightarrow> string" where
  "clock_stopped_at d n = d"

text \<open>A remote service that raises on the first \<open>k\<close> attempts and answers \<open>body\<close> from
  then on, whatever the URL.\<close>

definition fails_then_responds :: "nat \<Rightarrow> string \<Rightarrow> string \<Rightarrow> nat \<Rightarrow> attempt" where
  "fails_then_responds k body url idx = (if idx < k then RequestException else Response body)"

text \<open>
  A stand-in for \<^verbatim>\<open>json.loads\<close> on the texts of the examples: it raises on the one
  text \<open>bad\<close>, which is not JSON, and takes every other text as its own value.
\<close>

definition json_loads_but :: "string \<Rightarrow> string \<Rightarrow> string option" where
  "json_loads_but bad s = (if s = bad then None else Some s)"

text \<open>A cache file with one record, and the interface object that the constructor
  makes of it for each choice of the three flags.\<close>

definition one_record_file :: string where
  "one_record_file = ''u'' @ [LF] @ ''20180816'' @ [LF] @ ''{}'' @ [LF]"

definition loaded :: "bool \<Rightarrow> bool \<Rightarrow> bool \<Rightarrow> rxnav" where
  "loaded readonly forward strict =
     \<lparr>readonly_access_to_cache = readonly,
      forward_result_to_cache_writer = forward,
      fail_if_not_in_cache = strict,
      use_caching = True,
      cache_writer_queue = [],
      rxnav_cache = [''u'' \<mapsto> (0, ''20180816'')],
      rxnav_cache_file = Some \<lparr>content = one_record_file, pos = 14, flushed = 14\<rparr>,
      rxnav_cache_file_at_EOF = True,
      rxnav_cache_hits = 0,
      request_count = 0,
      rxnav_request_count = 0,
      requests_get_calls = 0\<rparr>"

section \<open>Properties of the partition\<close>



lemma slice_len: "length (py_slice xs (s * i) (s * (i + 1))) = min s (length xs - s * i)"
  by (simp add: py_slice_def)





section \<open>Evaluating the model on concrete files\<close>

declare load_loop.simps [simp del]

lemmas eval_defs = rxnav_rest_api_mp_def load_existing_cache_def io_open_def seek_def
  load_loop.simps read_3_lines_def readline_def tell_def flush_def chomp_def rstrip_def Let_def

lemma constructor_on_one_record_file:
  "rxnav_rest_api_mp (Some one_record_file) [] readonly forward strict
     = Inr (loaded readonly forward strict)"
  by (simp add: eval_defs one_record_file_def loaded_def)

section \<open>The end-of-file flag is an invariant\<close>

lemma flush_content [simp]: "content (flush f) = content f"
  by (simp add: flush_def)

lemma flush_pos [simp]: "pos (flush f) = pos f"
  by (simp add: flush_def)

lemma flush_flushed [simp]: "flushed (flush f) = length (content f)"
  by (simp add: flush_def)

lemma readline_flushed: "flushed (snd (readline f)) = flushed f"
  by (simp add: readline_def Let_def split: prod.splits)

lemma read_3_lines_flushed: "flushed (snd (read_3_lines f)) = flushed f"
proof -
  obtain x1 f1 where r1: "readline f = (x1, f1)" by force
  obtain x2 f2 where r2: "readline f1 = (x2, f2)" by force
  obtain x3 f3 where r3: "readline f2 = (x3, f3)" by force
  have "flushed f3 = flushed f"
    using r1 r2 r3 readline_flushed[of f] readline_flushed[of f1] readline_flushed[of f2]
    by simp
  then show ?thesis using r1 r2 r3 by (simp add: read_3_lines_def)
qed

lemma readline_pos_le:
  "pos f \<le> length (content f) \<Longrightarrow> pos (snd (readline f)) \<le> length (content f)"
  by (auto simp: readline_def Let_def split: prod.splits)

lemma read_3_lines_content: "content (snd (read_3_lines f)) = content f"
proof -
  obtain x1 f1 where r1: "readline f = (x1, f1)" by force
  obtain x2 f2 where r2: "readline f1 = (x2, f2)" by force
  obtain x3 f3 where r3: "readline f2 = (x3, f3)" by force
  have "content f3 = content f" using r1 r2 r3 readline_content by (metis snd_conv)
  then show ?thesis using r1 r2 r3 by (simp add: read_3_lines_def)
qed

lemma read_3_lines_pos_le:
  assumes "pos f \<le> length (content f)"
  shows "pos (snd (read_3_lines f)) \<le> length (content f)"
proof -
  obtain x1 f1 where r1: "readline f = (x1, f1)" by force
  obtain x2 f2 where r2: "readline f1 = (x2, f2)" by force
  obtain x3 f3 where r3: "readline f2 = (x3, f3)" by force
  have c1: "content f1 = content f" using r1 readline_content[of f] by simp
  have c2: "content f2 = content f" using r2 readline_content[of f1] c1 by simp
  have "pos f1 \<le> length (content f)" using readline_pos_le[OF assms] r1 by simp
  then have "pos f2 \<le> length (content f)" using readline_pos_le[of f1] r2 c1 by simp
  then have "pos f3 \<le> length (content f)" using readline_pos_le[of f2] r3 c2 by simp
  then show ?thesis using r1 r2 r3 by (simp add: read_3_lines_def)
qed

lemma read_3_lines_at_EOF:
  assumes "read_3_lines f = (xs, f')" "filter (\<lambda>x. length x > 0) xs = []"
  shows "f' = f \<and> length (content f) \<le> pos f"
proof -
  obtain x1 f1 where r1: "readline f = (x1, f1)" by force
  obtain x2 f2 where r2: "readline f1 = (x2, f2)" by force
  obtain x3 f3 where r3: "readline f2 = (x3, f3)" by force
  have xs: "xs = [x1, x2, x3]" and f': "f' = f3"
    using assms(1) r1 r2 r3 by (auto simp: read_3_lines_def)
  have "x1 = []" using assms(2) xs by (auto split: if_splits)
  then have e: "length (content f) \<le> pos f" using readline_Nil_iff[of f] r1 by simp
  then have "f1 = f" using readline_at_EOF[OF e] r1 by simp
  then have "f2 = f" using readline_at_EOF[OF e] r2 by simp
  then have "f3 = f" using readline_at_EOF[OF e] r3 by simp
  then show ?thesis using e f' by simp
qed

lemma load_loop_ends_at_EOF:
  "pos f \<le> length (content f) \<Longrightarrow> load_loop f c n = Inr (c', f') \<Longrightarrow>
     content f' = content f \<and> pos f' = length (content f) \<and> flushed f' = length (content f)"
proof (induction f c n rule: load_loop.induct)
  case (1 f c n)
  have tl: "tell f = (pos f, flush f)" by (simp add: tell_def)
  obtain xs g where r: "read_3_lines (flush f) = (xs, g)" by force
  have g: "content g = content f" "pos g \<le> length (content f)" "flushed g = length (content f)"
    using r read_3_lines_content[of "flush f"] read_3_lines_pos_le[of "flush f"] "1.prems"(1)
          read_3_lines_flushed[of "flush f"]
    by simp_all
  show ?case
  proof (cases "filter (\<lambda>x. length x > 0) xs = []")
    case True
    then have "g = flush f \<and> length (content f) \<le> pos f"
      using read_3_lines_at_EOF[OF r] by simp
    moreover have "f' = g" using "1.prems"(2) r True tl by (simp add: load_loop.simps[of f])
    ultimately show ?thesis using "1.prems"(1) by simp
  next
    case False
    let ?raw = "filter (\<lambda>x. length x > 0) xs"
    have n0: "length ?raw \<noteq> 0" using False by simp
    have n3: "\<not> length ?raw \<noteq> 3" and d8: "\<not> length (chomp (?raw ! 1)) \<noteq> 8"
      using "1.prems"(2) r False tl
      by (auto simp: load_loop.simps[of f] Let_def split: if_splits)
    have rec: "load_loop g (c(chomp (?raw ! 0) \<mapsto> (pos f, chomp (?raw ! 1)))) (n + 3)
                 = Inr (c', f')"
      using "1.prems"(2) r False n3 d8 tl by (simp add: load_loop.simps[of f] Let_def)
    have pg: "pos g \<le> length (content g)" using g by simp
    have "content f' = content g \<and> pos f' = length (content g)
            \<and> flushed f' = length (content g)"
      by (rule "1.IH"[OF tl[symmetric] r[symmetric] refl n0 n3 refl refl refl d8 pg rec])
    then show ?thesis using g by simp
  qed
qed

lemma constructed_rxnav:
  assumes "rxnav_rest_api_mp (Some body) queue readonly forward strict = Inr self"
  shows "use_caching self \<and> rxnav_cache_file_at_EOF self
       \<and> rxnav_cache_file self
           = Some \<lparr>content = body, pos = length body, flushed = length body\<rparr>
       \<and> readonly_access_to_cache self = readonly
       \<and> forward_result_to_cache_writer self = forward
       \<and> fail_if_not_in_cache self = strict
       \<and> cache_writer_queue self = queue \<and> requests_get_calls self = 0"
proof -
  obtain c f where l: "load_existing_cache (io_open body readonly) = Inr (c, f)"
    using assms by (auto simp: rxnav_rest_api_mp_def Let_def split: sum.splits)
  have "content f = body \<and> pos f = length body \<and> flushed f = length body"
    using load_loop_ends_at_EOF[of "seek 0 (io_open body readonly)" Map.empty 0 c f] l
    by (simp add: load_existing_cache_def seek_def io_open_def)
  then have "f = \<lparr>content = body, pos = length body, flushed = length body\<rparr>"
    by (cases f) simp
  then show ?thesis using assms l by (auto simp: rxnav_rest_api_mp_def Let_def)
qed

lemma constructed_at_EOF_ok:
  "rxnav_rest_api_mp cache_file queue readonly forward strict = Inr self \<Longrightarrow>
     cache_file_at_EOF_ok self"
proof (cases cache_file)
  case None
  assume "rxnav_rest_api_mp cache_file queue readonly forward strict = Inr self"
  then show ?thesis using None by (auto simp: rxnav_rest_api_mp_def cache_file_at_EOF_ok_def)
next
  case (Some body)
  assume "rxnav_rest_api_mp cache_file queue readonly forward strict = Inr self"
  then show ?thesis using Some constructed_rxnav[of body queue readonly forward strict self]
    by (simp add: cache_file_at_EOF_ok_def)
qed

lemma get_rxnav_data_at_EOF_ok:
  "cache_file_at_EOF_ok self \<Longrightarrow>
     cache_file_at_EOF_ok (snd (get_rxnav_data json_loads requests_get request_url self))"
  by (auto simp: get_rxnav_data_def cache_file_at_EOF_ok_def Let_def
           split: option.splits prod.splits)

lemma write_cache_entry_at_EOF_ok:
  "cache_file_at_EOF_ok self \<Longrightarrow>
     cache_file_at_EOF_ok (snd (write_cache_entry data_date request_url json_string self))"
  by (auto simp: write_cache_entry_def cache_file_at_EOF_ok_def Let_def seek_to_EOF_def
                 print_to_file_def tell_def flush_def split: option.splits)

text \<open>Without caching the index stays empty.\<close>

lemma constructed_index_ok:
  "rxnav_rest_api_mp cache_file queue readonly forward strict = Inr self \<Longrightarrow>
     use_caching self \<or> rxnav_cache self = Map.empty"
  by (cases cache_file) (auto simp: rxnav_rest_api_mp_def Let_def split: sum.splits)

lemma get_rxnav_data_index_ok:
  "use_caching self \<or> rxnav_cache self = Map.empty \<Longrightarrow>
     use_caching (snd (get_rxnav_data json_loads requests_get request_url self))
     \<or> rxnav_cache (snd (get_rxnav_data json_loads requests_get request_url self)) = Map.empty"
  by (auto simp: get_rxnav_data_def Let_def split: option.splits prod.splits)


section \<open>The retry loop\<close>

lemma retry_fail_then_ok:
  assumes "\<forall>i<k. get (a + i) = RequestException" "get (a + k) = Response body" "a + k < b"
  shows "comm_retry_loop get [a..<b] = (Some body, k + 1)"
  using assms
proof (induction k arbitrary: a)
  case 0
  then show ?case by (simp add: upt_conv_Cons)
next
  case (Suc k)
  have "get a = RequestException" using Suc.prems(1) by (metis add.right_neutral zero_less_Suc)
  moreover have "\<forall>i<k. get (Suc a + i) = RequestException"
  proof (intro allI impI)
    fix i assume "i < k"
    then have "get (a + Suc i) = RequestException" using Suc.prems(1) by blast
    then show "get (Suc a + i) = RequestException" by simp
  qed
  then have "comm_retry_loop get [Suc a..<b] = (Some body, k + 1)"
    using Suc.IH[of "Suc a"] Suc.prems(2,3) by simp
  ultimately show ?case using Suc.prems(3) by (simp add: upt_conv_Cons)
qed

lemma retry_all_fail:
  assumes "\<forall>i. a \<le> i \<and> i < b \<longrightarrow> get i = RequestException"
  shows "comm_retry_loop get [a..<b] = (None, b - a)"
  using assms
proof (induction "b - a" arbitrary: a)
  case 0
  then show ?case by simp
next
  case (Suc n)
  then have ab: "a < b" by simp
  have "comm_retry_loop get [Suc a..<b] = (None, b - Suc a)"
    using Suc.hyps(1)[of "Suc a"] Suc.hyps(2) Suc.prems by auto
  moreover have "get a = RequestException" using Suc.prems ab by simp
  ultimately show ?case using ab by (simp add: upt_conv_Cons)
qed

lemma retry_calls_pos: "idxs \<noteq> [] \<Longrightarrow> 0 < snd (comm_retry_loop get idxs)"
  by (cases idxs) (auto split: attempt.splits prod.splits)

section \<open>What \<^verbatim>\<open>readline\<close> reads\<close>

lemma rstrip_Cons: "c \<noteq> x \<Longrightarrow> rstrip x (c # l) = c # rstrip x l"
  by (simp add: rstrip_def dropWhile_append)

lemma chomp_Cons: "c \<noteq> LF \<Longrightarrow> c \<noteq> CR \<Longrightarrow> chomp (c # l) = c # chomp l"
  by (simp add: chomp_def rstrip_Cons)

lemma chomp_LF: "chomp [LF] = []"
  by (simp add: chomp_def rstrip_def)

lemma after_CR_take_drop: "after_CR cs = (if take 1 cs = [LF] then drop 1 cs else cs)"
  by (cases cs) (simp_all add: after_CR_def)

lemma readline_text_spec:
  "readline_text s = (l, r) \<Longrightarrow> chomp l = line_text s \<and> r = after_line s"
proof (induction s arbitrary: l r)
  case Nil
  then show ?case by (simp add: chomp_def rstrip_def line_text_def after_line_def)
next
  case (Cons c cs)
  show ?case
  proof (cases "c = LF \<or> c = CR")
    case True
    have l: "l = [LF]" using True Cons.prems by (auto split: if_splits)
    have "r = after_line (c # cs)"
    proof (cases "c = LF")
      case True
      then show ?thesis using Cons.prems by (simp add: after_line_def)
    next
      case False
      then have "c = CR" using True by simp
      moreover have "r = after_CR cs" using Cons.prems False calculation by simp
      ultimately show ?thesis
        by (simp add: after_line_def after_CR_take_drop[of cs])
    qed
    moreover have "chomp l = line_text (c # cs)"
      using True l by (auto simp: chomp_LF line_text_def)
    ultimately show ?thesis by simp
  next
    case False
    obtain l' r' where lr: "readline_text cs = (l', r')" by force
    have "chomp l' = line_text cs \<and> r' = after_line cs" by (rule Cons.IH[OF lr])
    moreover have "l = c # l'" "r = r'" using Cons.prems False lr by simp_all
    ultimately show ?thesis using False
      by (simp add: chomp_Cons line_text_def after_line_def)
  qed
qed

lemma readline_text_drop:
  "drop (length s - length (snd (readline_text s))) s = snd (readline_text s)"
proof (induction s)
  case Nil
  show ?case by simp
next
  case (Cons c cs)
  have le: "length (snd (readline_text cs)) \<le> length cs" by (rule readline_text_length)
  show ?case
  proof (cases "c = LF")
    case True
    then show ?thesis by simp
  next
    case nLF: False
    show ?thesis
    proof (cases "c = CR")
      case True
      then show ?thesis using nLF by (cases cs) (auto simp: after_CR_def)
    next
      case False
      obtain l' r' where lr: "readline_text cs = (l', r')" by force
      have le': "length r' \<le> length cs" using le lr by simp
      have ih: "drop (length cs - length r') cs = r'" using Cons.IH lr by simp
      have "length (c # cs) - length r' = Suc (length cs - length r')" using le' by simp
      then have "drop (length (c # cs) - length r') (c # cs) = r'" using ih by simp
      moreover have "snd (readline_text (c # cs)) = r'" using nLF False lr by simp
      ultimately show ?thesis by simp
    qed
  qed
qed

lemma readline_spec:
  assumes "readline f = (l, f')"
  shows "chomp l = line_text (drop (pos f) (content f))
       \<and> drop (pos f') (content f') = after_line (drop (pos f) (content f))
       \<and> content f' = content f"
proof -
  let ?s = "drop (pos f) (content f)"
  obtain l0 r where lr: "readline_text ?s = (l0, r)" by force
  have sp: "chomp l0 = line_text ?s \<and> r = after_line ?s" by (rule readline_text_spec[OF lr])
  have l: "l = l0" and p: "pos f' = pos f + (length ?s - length r)" and c: "content f' = content f"
    using assms lr by (auto simp: readline_def Let_def)
  have "drop (pos f') (content f') = drop (length ?s - length r) ?s"
    unfolding p c by (simp add: add.commute)
  also have "\<dots> = r" using readline_text_drop[of ?s] lr by simp
  finally show ?thesis using sp l c by simp
qed

lemma hit_text:
  "chomp (fst (readline (snd (readline (snd (readline (seek p f)))))))
     = third_line_at (content f) p"
proof -
  obtain l1 f1 where r1: "readline (seek p f) = (l1, f1)" by force
  obtain l2 f2 where r2: "readline f1 = (l2, f2)" by force
  obtain l3 f3 where r3: "readline f2 = (l3, f3)" by force
  have s0: "drop (pos (seek p f)) (content (seek p f)) = drop p (content f)"
    by (simp add: seek_def)
  have s1: "drop (pos f1) (content f1) = after_line (drop p (content f))"
    using readline_spec[OF r1, THEN conjunct2, THEN conjunct1] unfolding s0 .
  have s2: "drop (pos f2) (content f2) = after_line (after_line (drop p (content f)))"
    using readline_spec[OF r2, THEN conjunct2, THEN conjunct1] unfolding s1 .
  have "chomp l3 = line_text (after_line (after_line (drop p (content f))))"
    using readline_spec[OF r3, THEN conjunct1] unfolding s2 .
  then show ?thesis using r1 r2 r3 by (simp add: third_line_at_def)
qed

section \<open>The two paths through the cache\<close>

lemma write_cache_entry_result:
  assumes "rxnav_cache_file self = Some f" "\<not> readonly_access_to_cache self"
      and "cache_file_at_EOF_ok self"
  shows "\<exists>self' f'. write_cache_entry data_date request_url json_string self = (Inr None, self')
     \<and> rxnav_cache_file self' = Some f'
     \<and> content f' = content f @ request_url @ [LF] @ data_date @ [LF] @ json_string @ [LF]
     \<and> pos f' = length (content f') \<and> rxnav_cache_file_at_EOF self'
     \<and> rxnav_cache self' request_url = Some (length (content f), data_date)
     \<and> flushed f' = length (content f)
     \<and> readonly_access_to_cache self' = readonly_access_to_cache self"
  using assms
  by (auto simp add: write_cache_entry_def Let_def seek_to_EOF_def print_to_file_def tell_def
        flush_def cache_file_at_EOF_ok_def)

lemma cache_hit_result:
  assumes "use_caching self" "rxnav_cache self request_url = Some (file_position, d)"
      and "rxnav_cache_file self = Some f"
  shows "\<exists>self'. get_rxnav_data json_loads requests_get request_url self
            = (py_json_loads json_loads (third_line_at (content f) file_position), self')
     \<and> requests_get_calls self' = requests_get_calls self
     \<and> cache_writer_queue self' = cache_writer_queue self
     \<and> rxnav_cache_hits self' = rxnav_cache_hits self + 1"
  using assms hit_text[of file_position f]
  by (auto simp add: get_rxnav_data_def Let_def split: prod.splits)

section \<open>Claims about \<^verbatim>\<open>get_rxnav_data\<close>\<close>

text \<open>
  C4, as the spec states it, on a URL that is not in the index, outside strict mode, and a
  remote service that answers the first call with a text that is not JSON (an error page,
  say): no call has failed and call 1 has returned, and \<^verbatim>\<open>get_rxnav_data\<close> does not
  succeed; after that one call, \<^verbatim>\<open>json.loads\<close> raises.
\<close>

theorem C4_response_not_JSON_counterexample:
  "\<not> (use_caching (loaded True True False) \<and> ''x'' \<in> dom (rxnav_cache (loaded True True False)))
   \<and> \<not> fail_if_not_in_cache (loaded True True False)
   \<and> fails_then_responds 0 ''oops'' ''x'' 0 = Response ''oops''
   \<and> get_rxnav_data (json_loads_but ''oops'') (fails_then_responds 0 ''oops'') ''x''
         (loaded True True False)
       = (Inl JSONDecodeError,
          (loaded True True False)\<lparr>request_count := 1, requests_get_calls := 1\<rparr>)"
  by (simp add: loaded_def fails_then_responds_def json_loads_but_def get_rxnav_data_def
        retry_limit_def upt_conv_Cons)

text \<open>
  C4, amended. For a request URL that is not served from the cache, outside strict mode:
  when the first \<open>k < 40\<close> calls of \<^verbatim>\<open>requests.get\<close> raise and call \<open>k + 1\<close> returns a
  response, exactly \<open>k + 1\<close> calls are made; the call succeeds with the parsed value when
  the response text is JSON, and then the pair of URL and text is put on the queue of the
  Cache Writer exactly when forwarding is on; when the text is not JSON,
  \<^verbatim>\<open>JSONDecodeError\<close> is raised and nothing is put on the queue. When all 40 calls raise,
  \<^verbatim>\<open>ConnectionError\<close> is raised after 40 calls, nothing is put on the queue, and the
  index and the cache file are as before.
\<close>

theorem C4_retry_bound:
  assumes "\<not> (use_caching self \<and> request_url \<in> dom (rxnav_cache self))"
      and "\<not> fail_if_not_in_cache self"
  shows "(\<forall>k body. k < retry_limit \<and> (\<forall>i<k. requests_get request_url i = RequestException)
            \<and> requests_get request_url k = Response body \<longrightarrow>
          (case get_rxnav_data json_loads requests_get request_url self of (res, self') \<Rightarrow>
             requests_get_calls self' = requests_get_calls self + (k + 1)
           \<and> (\<forall>v. json_loads body = Some v \<longrightarrow> res = Inr v
                \<and> cache_writer_queue self' = cache_writer_queue self @
                    (if forward_result_to_cache_writer self then [PyList [request_url, body]] else []))
           \<and> (json_loads body = None \<longrightarrow> res = Inl JSONDecodeError
                \<and> cache_writer_queue self' = cache_writer_queue self)))
       \<and> ((\<forall>i<retry_limit. requests_get request_url i = RequestException) \<longrightarrow>
          (case get_rxnav_data json_loads requests_get request_url self of (res, self') \<Rightarrow>
             res = Inl ConnectionError
           \<and> requests_get_calls self' = requests_get_calls self + retry_limit
           \<and> cache_writer_queue self' = cache_writer_queue self
           \<and> rxnav_cache self' = rxnav_cache self
           \<and> rxnav_cache_file self' = rxnav_cache_file self))
       \<and> retry_limit = 40"
proof (intro conjI allI impI)
  fix k body
  assume h: "k < retry_limit \<and> (\<forall>i<k. requests_get request_url i = RequestException)
            \<and> requests_get request_url k = Response body"
  have "comm_retry_loop (requests_get request_url) [0..<retry_limit] = (Some body, k + 1)"
    using retry_fail_then_ok[of k "requests_get request_url" 0 body retry_limit] h by simp
  then show "case get_rxnav_data json_loads requests_get request_url self of (res, self') \<Rightarrow>
             requests_get_calls self' = requests_get_calls self + (k + 1)
           \<and> (\<forall>v. json_loads body = Some v \<longrightarrow> res = Inr v
                \<and> cache_writer_queue self' = cache_writer_queue self @
                    (if forward_result_to_cache_writer self then [PyList [request_url, body]] else []))
           \<and> (json_loads body = None \<longrightarrow> res = Inl JSONDecodeError
                \<and> cache_writer_queue self' = cache_writer_queue self)"
    using assms
    by (auto simp add: get_rxnav_data_def Let_def dom_def split: option.splits)
next
  assume h: "\<forall>i<retry_limit. requests_get request_url i = RequestException"
  have "comm_retry_loop (requests_get request_url) [0..<retry_limit] = (None, retry_limit)"
    using retry_all_fail[of 0 retry_limit "requests_get request_url"] h by simp
  then show "case get_rxnav_data json_loads requests_get request_url self of (res, self') \<Rightarrow>
             res = Inl ConnectionError
           \<and> requests_get_calls self' = requests_get_calls self + retry_limit
           \<and> cache_writer_queue self' = cache_writer_queue self
           \<and> rxnav_cache self' = rxnav_cache self
           \<and> rxnav_cache_file self' = rxnav_cache_file self"
    using assms
    by (auto simp add: get_rxnav_data_def Let_def dom_def)
next
  show "retry_limit = 40" by (simp add: retry_limit_def)
qed

theorem C4_retry_bound_witness:
  "\<not> (use_caching (loaded True True False) \<and> ''x'' \<in> dom (rxnav_cache (loaded True True False)))
   \<and> \<not> fail_if_not_in_cache (loaded True True False)
   \<and> (case get_rxnav_data Some (fails_then_responds 2 ''[]'') ''x'' (loaded True True False) of
        (res, self') \<Rightarrow> res = Inr ''[]'' \<and> requests_get_calls self' = 3
           \<and> cache_writer_queue self' = [PyList [''x'', ''[]'']])
   \<and> (case get_rxnav_data (json_loads_but ''oops'') (fails_then_responds 2 ''oops'') ''x''
              (loaded True True False) of
        (res, self') \<Rightarrow> res = Inl JSONDecodeError \<and> requests_get_calls self' = 3
           \<and> cache_writer_queue self' = [])
   \<and> (case get_rxnav_data Some (fails_then_responds 40 ''[]'') ''x'' (loaded True True False) of
        (res, self') \<Rightarrow> res = Inl ConnectionError \<and> requests_get_calls self' = 40
           \<and> cache_writer_queue self' = [])"
proof -
  have h1: "\<not> (use_caching (loaded True True False)
              \<and> ''x'' \<in> dom (rxnav_cache (loaded True True False)))"
    by (simp add: loaded_def)
  have h2: "\<not> fail_if_not_in_cache (loaded True True False)" by (simp add: loaded_def)
  have a: "(2::nat) < retry_limit \<and> (\<forall>i<2. fails_then_responds 2 ''[]'' ''x'' i = RequestException)
            \<and> fails_then_responds 2 ''[]'' ''x'' 2 = Response ''[]''"
    by (simp add: retry_limit_def fails_then_responds_def)
  have a': "(2::nat) < retry_limit
            \<and> (\<forall>i<2. fails_then_responds 2 ''oops'' ''x'' i = RequestException)
            \<and> fails_then_responds 2 ''oops'' ''x'' 2 = Response ''oops''"
    by (simp add: retry_limit_def fails_then_responds_def)
  have b: "\<forall>i<retry_limit. fails_then_responds 40 ''[]'' ''x'' i = RequestException"
    by (simp add: retry_limit_def fails_then_responds_def)
  have q: "cache_writer_queue (loaded True True False) = []"
          "forward_result_to_cache_writer (loaded True True False)"
          "requests_get_calls (loaded True True False) = 0"
    by (simp_all add: loaded_def)
  obtain res1 s1 where g1:
    "get_rxnav_data Some (fails_then_responds 2 ''[]'') ''x'' (loaded True True False) = (res1, s1)"
    by force
  obtain res2 s2 where g2:
    "get_rxnav_data Some (fails_then_responds 40 ''[]'') ''x'' (loaded True True False) = (res2, s2)"
    by force
  obtain res3 s3 where g3:
    "get_rxnav_data (json_loads_but ''oops'') (fails_then_responds 2 ''oops'') ''x''
       (loaded True True False) = (res3, s3)"
    by force
  note T1 = C4_retry_bound [OF h1 h2, of "fails_then_responds 2 ''[]''" Some, THEN conjunct1,
              THEN spec, THEN spec, THEN mp, OF a]
  note T2 = C4_retry_bound [OF h1 h2, of "fails_then_responds 40 ''[]''" Some, THEN conjunct2,
              THEN conjunct1, THEN mp, OF b]
  note T3 = C4_retry_bound [OF h1 h2, of "fails_then_responds 2 ''oops''" "json_loads_but ''oops''",
              THEN conjunct1, THEN spec, THEN spec, THEN mp, OF a']
  have r1: "res1 = Inr ''[]'' \<and> requests_get_calls s1 = 3
           \<and> cache_writer_queue s1 = [PyList [''x'', ''[]'']]"
    using T1 unfolding g1 by (simp add: q)
  have r2: "res2 = Inl ConnectionError \<and> requests_get_calls s2 = 40 \<and> cache_writer_queue s2 = []"
    using T2 unfolding g2 by (simp add: q retry_limit_def)
  have r3: "res3 = Inl JSONDecodeError \<and> requests_get_calls s3 = 3 \<and> cache_writer_queue s3 = []"
    using T3 unfolding g3 by (simp add: q json_loads_but_def)
  show ?thesis using h1 h2 r1 r2 r3 unfolding g1 g2 g3 by simp
qed

text \<open>
  C5, as the spec states it, on a cache file whose one record has a payload line that is
  not JSON, loaded by the constructor: the URL is in the index, and \<^verbatim>\<open>get_rxnav_data\<close>
  does not return the payload read from the file; \<^verbatim>\<open>json.loads\<close> raises on it.
\<close>

theorem C5_hit_not_JSON_counterexample:
  "(case rxnav_rest_api_mp (Some (''u'' @ [LF] @ ''20180816'' @ [LF] @ ''oops'' @ [LF])) []
           True True False of
      Inl e \<Rightarrow> False
    | Inr self \<Rightarrow>
        use_caching self \<and> rxnav_cache self ''u'' = Some (0, ''20180816'')
        \<and> fst (get_rxnav_data (json_loads_but ''oops'') (fails_then_responds 0 ''{}'') ''u'' self)
            = Inl JSONDecodeError)"
  by (simp add: eval_defs get_rxnav_data_def py_json_loads_def json_loads_but_def)

text \<open>
  C5, amended. With caching enabled and the request URL in the index,
  \<^verbatim>\<open>get_rxnav_data\<close> hands to \<^verbatim>\<open>json.loads\<close> the third line of the text of the cache
  file from the indexed file position on, without its end of line (the payload line of
  the record that starts there), and returns the parsed value, or raises
  \<^verbatim>\<open>JSONDecodeError\<close> when that line is not JSON. Either way it calls \<^verbatim>\<open>requests.get\<close>
  not once, puts nothing on the queue of the Cache Writer, and counts one cache hit.
\<close>

theorem C5_cache_hit_short_circuit:
  assumes "use_caching self" "rxnav_cache self request_url = Some (file_position, d)"
      and "rxnav_cache_file self = Some f"
  shows "\<exists>self'. get_rxnav_data json_loads requests_get request_url self
            = (py_json_loads json_loads (third_line_at (content f) file_position), self')
     \<and> requests_get_calls self' = requests_get_calls self
     \<and> cache_writer_queue self' = cache_writer_queue self
     \<and> rxnav_cache_hits self' = rxnav_cache_hits self + 1"
  using assms by (rule cache_hit_result)

theorem C5_cache_hit_short_circuit_witness:
  "use_caching (loaded True True False)
   \<and> rxnav_cache (loaded True True False) ''u'' = Some (0, ''20180816'')
   \<and> rxnav_cache_file (loaded True True False)
        = Some \<lparr>content = one_record_file, pos = 14, flushed = 14\<rparr>
   \<and> third_line_at one_record_file 0 = ''{}''
   \<and> (\<exists>self'. get_rxnav_data Some (fails_then_responds 0 ''[]'') ''u'' (loaded True True False)
            = (Inr ''{}'', self')
        \<and> requests_get_calls self' = 0 \<and> cache_writer_queue self' = []
        \<and> rxnav_cache_hits self' = 1)"
proof -
  have h1: "use_caching (loaded True True False)" by (simp add: loaded_def)
  have h2: "rxnav_cache (loaded True True False) ''u'' = Some (0, ''20180816'')"
    by (simp add: loaded_def)
  have h3: "rxnav_cache_file (loaded True True False)
              = Some \<lparr>content = one_record_file, pos = 14, flushed = 14\<rparr>"
    by (simp add: loaded_def)
  have p: "third_line_at one_record_file 0 = ''{}''"
    by (simp add: third_line_at_def line_text_def after_line_def one_record_file_def)
  have "\<exists>self'. get_rxnav_data Some (fails_then_responds 0 ''[]'') ''u'' (loaded True True False)
            = (Inr ''{}'', self')
        \<and> requests_get_calls self' = 0 \<and> cache_writer_queue self' = []
        \<and> rxnav_cache_hits self' = 1"
    using C5_cache_hit_short_circuit [OF h1 h2 h3, of Some "fails_then_responds 0 ''[]''"] p
    by (simp add: py_json_loads_def loaded_def)
  then show ?thesis using h1 h2 h3 p by blast
qed

text \<open>
  C6. On an object made by the constructor (caching is enabled, or else the index is
  empty): in strict mode \<^verbatim>\<open>get_rxnav_data\<close> raises the "NOT In cache" error exactly
  when the request URL is absent from the index, and then the object is as before but for
  the request counter: no call of \<^verbatim>\<open>requests.get\<close>, nothing put on the queue, the same
  index and cache file. Outside strict mode the same absence does not raise that error
  and leads to at least one call of \<^verbatim>\<open>requests.get\<close>.
\<close>

theorem C6_strict_mode_not_cached:
  assumes "use_caching self \<or> rxnav_cache self = Map.empty"
  shows "(fail_if_not_in_cache self \<longrightarrow>
           ((fst (get_rxnav_data json_loads requests_get request_url self)
               = Inl (ValueError_not_in_cache request_url))
            = (request_url \<notin> dom (rxnav_cache self))))
       \<and> (fail_if_not_in_cache self \<and> request_url \<notin> dom (rxnav_cache self) \<longrightarrow>
            snd (get_rxnav_data json_loads requests_get request_url self)
              = self\<lparr>request_count := request_count self + 1\<rparr>)
       \<and> (\<not> fail_if_not_in_cache self \<and> request_url \<notin> dom (rxnav_cache self) \<longrightarrow>
            fst (get_rxnav_data json_loads requests_get request_url self)
               \<noteq> Inl (ValueError_not_in_cache request_url)
            \<and> requests_get_calls self
               < requests_get_calls (snd (get_rxnav_data json_loads requests_get request_url self)))"
proof -
  have pos: "0 < snd (comm_retry_loop (requests_get request_url) [0..<retry_limit])"
    by (rule retry_calls_pos) (simp add: retry_limit_def)
  show ?thesis
    using assms pos
    by (auto simp add: get_rxnav_data_def Let_def py_json_loads_def dom_def
             split: option.splits prod.splits)
qed

theorem C6_strict_mode_not_cached_witness:
  "(use_caching (loaded True False True) \<or> rxnav_cache (loaded True False True) = Map.empty)
   \<and> fail_if_not_in_cache (loaded True False True)
   \<and> ''x'' \<notin> dom (rxnav_cache (loaded True False True))
   \<and> fst (get_rxnav_data Some (fails_then_responds 0 ''[]'') ''x'' (loaded True False True))
       = Inl (ValueError_not_in_cache ''x'')
   \<and> snd (get_rxnav_data Some (fails_then_responds 0 ''[]'') ''x'' (loaded True False True))
       = (loaded True False True)\<lparr>request_count := 1\<rparr>
   \<and> ''u'' \<in> dom (rxnav_cache (loaded True False True))
   \<and> fst (get_rxnav_data Some (fails_then_responds 0 ''[]'') ''u'' (loaded True False True))
       \<noteq> Inl (ValueError_not_in_cache ''u'')
   \<and> (use_caching (loaded True False False) \<or> rxnav_cache (loaded True False False) = Map.empty)
   \<and> \<not> fail_if_not_in_cache (loaded True False False)
   \<and> ''x'' \<notin> dom (rxnav_cache (loaded True False False))
   \<and> requests_get_calls (loaded True False False)
       < requests_get_calls
           (snd (get_rxnav_data Some (fails_then_responds 0 ''[]'') ''x'' (loaded True False False)))"
proof -
  have h1: "use_caching (loaded True False True) \<or> rxnav_cache (loaded True False True) = Map.empty"
    by (simp add: loaded_def)
  have h2: "use_caching (loaded True False False) \<or> rxnav_cache (loaded True False False) = Map.empty"
    by (simp add: loaded_def)
  have s: "fail_if_not_in_cache (loaded True False True)"
          "\<not> fail_if_not_in_cache (loaded True False False)"
          "''x'' \<notin> dom (rxnav_cache (loaded True False True))"
          "''u'' \<in> dom (rxnav_cache (loaded True False True))"
          "''x'' \<notin> dom (rxnav_cache (loaded True False False))"
          "request_count (loaded True False True) = 0"
    by (simp_all add: loaded_def)
  show ?thesis
    using C6_strict_mode_not_cached [OF h1, of Some "fails_then_responds 0 ''[]''" "''x''"]
          C6_strict_mode_not_cached [OF h1, of Some "fails_then_responds 0 ''[]''" "''u''"]
          C6_strict_mode_not_cached [OF h2, of Some "fails_then_responds 0 ''[]''" "''x''"]
          h1 h2 s
    by simp
qed

section \<open>Claims about \<^verbatim>\<open>write_cache_entry\<close>\<close>

text \<open>
  C8, as the spec states it, on the object that the constructor makes of the empty cache
  file with write access: the record starts at offset 0, and the value of the call is
  \<^verbatim>\<open>None\<close>, not that offset; the offset is stored in the index.
\<close>

theorem C8_returns_None_counterexample:
  "(case rxnav_rest_api_mp (Some []) [] False False False of
      Inl e \<Rightarrow> False
    | Inr self \<Rightarrow>
        (case write_cache_entry ''20180816'' ''u'' ''{}'' self of
           (res, self') \<Rightarrow> res = Inr None \<and> res \<noteq> Inr (Some 0)
             \<and> rxnav_cache self' ''u'' = Some (0, ''20180816'')))"
  by (simp add: eval_defs write_cache_entry_def print_to_file_def)

text \<open>
  C8, amended. On an object whose cache file is open for appending and whose end-of-file
  flag tells the truth, \<^verbatim>\<open>write_cache_entry\<close> appends the three lines URL, date and
  payload to the text of the file (after moving the cursor to the end of the file when
  the flag is not set), leaves the cursor at the new end of the file with the flag set,
  and stores the offset at which the record starts, with the date, as the index entry of
  the URL, whatever entry the URL had. The call itself returns \<^verbatim>\<open>None\<close>.
\<close>

theorem C8_write_cache_entry_appends:
  assumes "rxnav_cache_file self = Some f" "\<not> readonly_access_to_cache self"
      and "cache_file_at_EOF_ok self"
  shows "\<exists>self' f'. write_cache_entry data_date request_url json_string self = (Inr None, self')
     \<and> rxnav_cache_file self' = Some f'
     \<and> content f' = content f @ request_url @ [LF] @ data_date @ [LF] @ json_string @ [LF]
     \<and> pos f' = length (content f') \<and> rxnav_cache_file_at_EOF self'
     \<and> rxnav_cache self' request_url = Some (length (content f), data_date)"
  using write_cache_entry_result [OF assms, of data_date request_url json_string] by blast

theorem C8_write_cache_entry_appends_witness:
  "rxnav_cache_file (loaded False False False) = Some \<lparr>content = one_record_file, pos = 14, flushed = 14\<rparr>
   \<and> \<not> readonly_access_to_cache (loaded False False False)
   \<and> cache_file_at_EOF_ok (loaded False False False)
   \<and> (\<exists>self' f'. write_cache_entry ''20180817'' ''u'' ''[]'' (loaded False False False)
                   = (Inr None, self')
        \<and> rxnav_cache_file self' = Some f'
        \<and> content f' = one_record_file @ ''u'' @ [LF] @ ''20180817'' @ [LF] @ ''[]'' @ [LF]
        \<and> pos f' = length (content f') \<and> rxnav_cache_file_at_EOF self'
        \<and> rxnav_cache self' ''u'' = Some (14, ''20180817''))"
proof -
  have h1: "rxnav_cache_file (loaded False False False)
              = Some \<lparr>content = one_record_file, pos = 14, flushed = 14\<rparr>"
    by (simp add: loaded_def)
  have h2: "\<not> readonly_access_to_cache (loaded False False False)" by (simp add: loaded_def)
  have h3: "cache_file_at_EOF_ok (loaded False False False)"
    by (simp add: loaded_def cache_file_at_EOF_ok_def one_record_file_def)
  have l: "length one_record_file = 14" by (simp add: one_record_file_def)
  show ?thesis
    using C8_write_cache_entry_appends [OF h1 h2 h3, of "''20180817''" "''u''" "''[]''"] h1 h2 h3 l
    by simp
qed

text \<open>
  C10. Whatever the outcome of \<^verbatim>\<open>write_cache_entry\<close>, the index entry of every other
  URL is as before, and the text of the cache file before the call is a prefix of the
  text after it: the file only grows at its end.
\<close>

theorem C10_write_cache_entry_frame:
  assumes "rxnav_cache_file self = Some f"
  shows "\<exists>f'. rxnav_cache_file (snd (write_cache_entry data_date request_url json_string self)) = Some f'
       \<and> take (length (content f)) (content f') = content f
       \<and> length (content f) \<le> length (content f')
       \<and> (\<forall>k. k \<noteq> request_url \<longrightarrow>
             rxnav_cache (snd (write_cache_entry data_date request_url json_string self)) k
               = rxnav_cache self k)"
  using assms
  by (simp add: write_cache_entry_def Let_def seek_to_EOF_def print_to_file_def tell_def
        flush_def)

theorem C10_write_cache_entry_frame_witness:
  "rxnav_cache_file (loaded False False False) = Some \<lparr>content = one_record_file, pos = 14, flushed = 14\<rparr>
   \<and> ''u'' \<noteq> ''v''
   \<and> (\<exists>f'. rxnav_cache_file (snd (write_cache_entry ''20180817'' ''v'' ''[]'' (loaded False False False)))
              = Some f'
        \<and> take 14 (content f') = one_record_file \<and> 14 \<le> length (content f'))
   \<and> rxnav_cache (snd (write_cache_entry ''20180817'' ''v'' ''[]'' (loaded False False False))) ''u''
       = Some (0, ''20180816'')"
proof -
  have h1: "rxnav_cache_file (loaded False False False)
              = Some \<lparr>content = one_record_file, pos = 14, flushed = 14\<rparr>"
    by (simp add: loaded_def)
  have l: "length one_record_file = 14" by (simp add: one_record_file_def)
  have c: "rxnav_cache (loaded False False False) ''u'' = Some (0, ''20180816'')"
    by (simp add: loaded_def)
  have n: "''u'' \<noteq> ''v''" by simp
  show ?thesis
    using C10_write_cache_entry_frame [OF h1, of "''20180817''" "''v''" "''[]''"] h1 l c n
    by auto
qed

section \<open>Claims about the Cache Writer and the workers\<close>

lemma writer_skip_step:
  "writer_skips m \<Longrightarrow>
     cache_writer_loop clock (m # ms) rxnav count = cache_writer_loop clock ms rxnav count"
  by (cases m) (auto simp: writer_skips_def)

lemma writer_skip_filter:
  "cache_writer_loop clock (filter (\<lambda>m. \<not> writer_skips m) ms) rxnav count
     = cache_writer_loop clock ms rxnav count"
proof (induction ms arbitrary: rxnav count)
  case Nil
  show ?case by simp
next
  case (Cons m ms)
  show ?case
  proof (cases m)
    case (PyList xs)
    then show ?thesis using Cons
      by (auto simp: writer_skips_def split: list.splits prod.splits sum.splits)
  next
    case (PyStr s)
    then show ?thesis using Cons by (auto simp: writer_skips_def)
  next
    case PyOther
    then show ?thesis using Cons by (auto simp: writer_skips_def)
  qed
qed

text \<open>
  C7, as the spec states it, on the empty cache file and the messages \<^verbatim>\<open>None\<close> (or any
  value that is neither a list nor a string), the string \<^verbatim>\<open>'stop'\<close> and then
  \<^verbatim>\<open>'kill'\<close>: the writer does not fail on the first two; it goes on to \<^verbatim>\<open>'kill'\<close> and
  ends normally, having written nothing.
\<close>

theorem C7_other_message_ignored_counterexample:
  "cache_writer_task (clock_stopped_at ''20180816'') [PyOther, PyStr ''stop'', PyStr ''kill''] []
     = Terminated
        \<lparr>readonly_access_to_cache = False, forward_result_to_cache_writer = False,
         fail_if_not_in_cache = False, use_caching = True, cache_writer_queue = [],
         rxnav_cache = Map.empty, rxnav_cache_file = Some \<lparr>content = [], pos = 0, flushed = 0\<rparr>,
         rxnav_cache_file_at_EOF = True, rxnav_cache_hits = 0, request_count = 0,
         rxnav_request_count = 0, requests_get_calls = 0\<rparr> 0"
  by (simp add: cache_writer_task_def eval_defs)

text \<open>
  C7, amended. The loop of the Cache Writer handles a list of two strings by
  \<^verbatim>\<open>write_cache_entry\<close> and goes on (or fails with the error of the write), ends on
  \<^verbatim>\<open>'kill'\<close>, and fails on a list that has not two elements. Every other message is
  skipped without a trace: the loop goes on as if the message had not been sent, and
  deleting all such messages from the queue does not change the outcome.
\<close>

theorem C7_cache_writer_messages:
  "cache_writer_loop clock (PyList [request_url, json_result_string] # ms) rxnav count
      = (case write_cache_entry (clock count) request_url json_result_string rxnav of
           (Inl e, rxnav') \<Rightarrow> Failed e
         | (Inr v, rxnav') \<Rightarrow> cache_writer_loop clock ms rxnav' (count + 1))
   \<and> cache_writer_loop clock (PyStr ''kill'' # ms) rxnav count = Terminated rxnav count
   \<and> (length xs \<noteq> 2 \<longrightarrow>
        cache_writer_loop clock (PyList xs # ms) rxnav count = Failed ValueError_unpack)
   \<and> (writer_skips m \<longrightarrow>
        cache_writer_loop clock (m # ms) rxnav count = cache_writer_loop clock ms rxnav count)
   \<and> cache_writer_loop clock (filter (\<lambda>m. \<not> writer_skips m) ms) rxnav count
        = cache_writer_loop clock ms rxnav count"
proof -
  have "cache_writer_loop clock (PyList xs # ms) rxnav count = Failed ValueError_unpack"
    if ne: "length xs \<noteq> 2"
  proof (cases xs)
    case Nil
    then show ?thesis by simp
  next
    case c1: (Cons a as)
    show ?thesis
    proof (cases as)
      case Nil
      then show ?thesis using c1 by simp
    next
      case c2: (Cons b bs)
      obtain c cs where "bs = c # cs" using ne c1 c2 by (cases bs) auto
      then show ?thesis using c1 c2 by simp
    qed
  qed
  then show ?thesis
    using writer_skip_step[of m clock ms rxnav count] writer_skip_filter[of clock ms rxnav count]
    by simp
qed

theorem C7_cache_writer_messages_witness:
  "length [''u''] \<noteq> 2 \<and> writer_skips PyOther
   \<and> cache_writer_loop (clock_stopped_at ''20180817'') [PyList [''u''], PyStr ''kill'']
        (loaded False False False) 0 = Failed ValueError_unpack
   \<and> cache_writer_loop (clock_stopped_at ''20180817'') [PyOther, PyStr ''kill'']
        (loaded False False False) 0 = Terminated (loaded False False False) 0"
proof -
  have a: "length [''u''] \<noteq> 2" by simp
  have b: "writer_skips PyOther" by (simp add: writer_skips_def)
  show ?thesis
    using C7_cache_writer_messages [of "clock_stopped_at ''20180817''" "''u''" "''[]''"
            "[PyStr ''kill'']" "loaded False False False" 0 "[''u'']" PyOther] a b
    by simp
qed

lemma last_segment_empty:
  assumes "1 \<le> w" "length xs < w"
  shows "\<exists>segs. phase_segments xs w = Inr segs \<and> length segs = w \<and> segs ! (w - 1) = []"
proof -
  let ?n = "length xs"
  let ?s = "(?n + w - 1) div w"
  have s1: "?s \<le> 1"
  proof -
    have "?n + w - 1 < 2 * w" using assms by simp
    then have "?s < 2" by (simp add: div_less_iff_less_mult assms)
    then show ?thesis by simp
  qed
  have "?n - ?s * (w - 1) = 0 \<or> ?s = 0"
  proof (cases "?s = 0")
    case True
    then show ?thesis by simp
  next
    case False
    then have "?s = 1" using s1 by simp
    then show ?thesis using assms by simp
  qed
  then have "min ?s (?n - ?s * (w - 1)) = 0" by auto
  then have "py_slice xs (?s * (w - 1)) (?s * (w - 1 + 1)) = []"
    using slice_len[of xs ?s "w - 1"] by simp
  moreover have "map (\<lambda>idx. py_slice xs (?s * idx) (?s * (idx + 1))) [0..<w] ! (w - 1)
     = py_slice xs (?s * (0 + (w - 1))) (?s * (0 + (w - 1) + 1))"
    using assms(1) by (intro nth_map_upt) simp
  ultimately have "map (\<lambda>idx. py_slice xs (?s * idx) (?s * (idx + 1))) [0..<w] ! (w - 1) = []"
    by simp
  moreover have "phase_segments xs w
     = Inr (map (\<lambda>idx. py_slice xs (?s * idx) (?s * (idx + 1))) [0..<w])"
    using assms(1) by (simp add: phase_segments_def segsize_def)
  ultimately show ?thesis by simp
qed

text \<open>
  C9. Either worker task, started on the empty code list, raises \<^verbatim>\<open>IndexError\<close> right
  after opening its log: it has not read the cache file, has not reached the barrier and
  has put nothing on the queue. On a non-empty list the first \<^verbatim>\<open>print\<close> succeeds. The
  partition does hand out an empty list when there are more workers than codes: the list
  of the last worker is empty.
\<close>

theorem C9_empty_segment_fails:
  "worker_task_rxcuis json_loads requests_get str mp_queue cache_file []
      = (Inl IndexError, [LogOpened], mp_queue)
   \<and> worker_task_ndcs json_loads requests_get str ndcs_of mp_queue cache_file []
      = (Inl IndexError, [LogOpened], mp_queue)
   \<and> (rxcui_code_list \<noteq> [] \<longrightarrow>
        take 2 (fst (snd (worker_task_rxcuis json_loads requests_get str mp_queue cache_file
                            rxcui_code_list)))
          = [LogOpened, Announced (length rxcui_code_list)]
      \<and> take 2 (fst (snd (worker_task_ndcs json_loads requests_get str ndcs_of mp_queue cache_file
                            rxcui_code_list)))
          = [LogOpened, Announced (length rxcui_code_list)])
   \<and> (1 \<le> w \<and> length xs < w \<longrightarrow>
        (\<exists>segs. phase_segments xs w = Inr segs \<and> length segs = w \<and> segs ! (w - 1) = []))"
proof -
  have b: "rxcui_code_list \<noteq> [] \<Longrightarrow>
     \<exists>x y. py_index rxcui_code_list 0 = Inr x \<and> py_index rxcui_code_list (- 1) = Inr y"
    by (cases rxcui_code_list) (auto simp: py_index_def Let_def)
  have c: "rxcui_code_list \<noteq> [] \<Longrightarrow>
        take 2 (fst (snd (worker_task_rxcuis json_loads requests_get str mp_queue cache_file
                            rxcui_code_list)))
          = [LogOpened, Announced (length rxcui_code_list)]"
    using b by (auto simp: worker_task_rxcuis_def split: sum.splits prod.splits)
  have d: "rxcui_code_list \<noteq> [] \<Longrightarrow>
        take 2 (fst (snd (worker_task_ndcs json_loads requests_get str ndcs_of mp_queue cache_file
                            rxcui_code_list)))
          = [LogOpened, Announced (length rxcui_code_list)]"
    using b by (auto simp: worker_task_ndcs_def split: sum.splits prod.splits)
  show ?thesis using c d last_segment_empty[of w xs]
    by (simp add: worker_task_rxcuis_def worker_task_ndcs_def py_index_def)
qed

theorem C9_empty_segment_fails_witness:
  "[7::nat] \<noteq> [] \<and> (1::nat) \<le> 4 \<and> length [7::nat] < 4
   \<and> take 2 (fst (snd (worker_task_rxcuis Some (fails_then_responds 0 ''[]'') (\<lambda>n. ''7'') []
                         one_record_file [7::nat])))
        = [LogOpened, Announced 1]
   \<and> (\<exists>segs. phase_segments [7::nat] 4 = Inr segs \<and> length segs = 4 \<and> segs ! 3 = [])"
proof -
  have a: "[7::nat] \<noteq> []" by simp
  have b: "(1::nat) \<le> 4 \<and> length [7::nat] < 4" by simp
  show ?thesis
    using C9_empty_segment_fails [of Some "fails_then_responds 0 ''[]''" "\<lambda>n. ''7''" "[]"
            one_record_file "\<lambda>j. Inr {}" "[7::nat]" 4 "[7::nat]"] a b
    by simp
qed

section \<open>\<^verbatim>\<open>load_existing_cache\<close> on the lines of the file\<close>

declare file_lines.simps [simp del]

lemma file_lines_EOF: "length (content f) \<le> pos f \<Longrightarrow> file_lines f = []"
  by (simp add: file_lines.simps)

lemma file_lines_step:
  "pos f < length (content f) \<Longrightarrow>
     file_lines f = (pos f, fst (readline f)) # file_lines (snd (readline f))"
  by (simp add: file_lines.simps[of f] split: prod.splits)

lemma file_lines_Nil_iff: "file_lines f = [] \<longleftrightarrow> length (content f) \<le> pos f"
  using file_lines_EOF[of f] file_lines_step[of f] by (cases "length (content f) \<le> pos f") auto

text \<open>The lines depend on the text and the cursor only, not on what is in the buffer.\<close>

lemma file_lines_cong:
  "content g = content f \<Longrightarrow> pos g = pos f \<Longrightarrow> file_lines g = file_lines f"
proof (induction f arbitrary: g rule: file_lines.induct)
  case (1 f)
  show ?case
  proof (cases "length (content f) \<le> pos f")
    case True
    then show ?thesis using "1.prems" by (simp add: file_lines_EOF)
  next
    case False
    obtain l f' where r: "readline f = (l, f')" by force
    obtain l2 g' where r2: "readline g = (l2, g')" by force
    have e: "l2 = l" "content g' = content f'" "pos g' = pos f'"
      using r r2 "1.prems" by (auto simp: readline_def Let_def split: prod.splits)
    have "file_lines g' = file_lines f'"
      by (rule "1.IH"[OF False r[symmetric] e(2) e(3)])
    moreover have "file_lines f = (pos f, l) # file_lines f'"
      using file_lines_step[of f] False r by simp
    moreover have "file_lines g = (pos g, l2) # file_lines g'"
      using file_lines_step[of g] False r2 "1.prems" by simp
    ultimately show ?thesis using e(1) "1.prems"(2) by simp
  qed
qed

lemma file_lines_flush: "file_lines (flush f) = file_lines f"
  by (rule file_lines_cong) simp_all

text \<open>Reading a line at the position of an entry of the list gives the line of that entry.\<close>

lemma file_lines_positions:
  "(p, l) \<in> set (file_lines f) \<Longrightarrow>
     pos f \<le> p \<and> p < length (content f) \<and> fst (readline (seek p f)) = l"
proof (induction f rule: file_lines.induct)
  case (1 f)
  show ?case
  proof (cases "length (content f) \<le> pos f")
    case True
    then show ?thesis using "1.prems" by (simp add: file_lines_EOF)
  next
    case False
    obtain l0 f' where r: "readline f = (l0, f')" by force
    have st: "file_lines f = (pos f, l0) # file_lines f'"
      using file_lines_step[of f] False r by simp
    have c': "content f' = content f" and p': "pos f \<le> pos f'"
      using r readline_content[of f] readline_pos_mono[of f] by simp_all
    show ?thesis
    proof (cases "(p, l) = (pos f, l0)")
      case True
      have "fst (readline (seek (pos f) f)) = fst (readline f)"
        by (simp add: readline_def seek_def Let_def split: prod.splits)
      then show ?thesis using True False r by simp
    next
      case ne: False
      then have "(p, l) \<in> set (file_lines f')" using "1.prems" st by auto
      then have "pos f' \<le> p \<and> p < length (content f') \<and> fst (readline (seek p f')) = l"
        by (rule "1.IH"[OF False r[symmetric]])
      moreover have "seek p f' = seek p f"
        using r by (auto simp: seek_def flush_def readline_def Let_def split: prod.splits)
      ultimately show ?thesis using c' p' by simp
    qed
  qed
qed

lemma readline_file_lines:
  "filter (\<lambda>x. length x > 0) [fst (readline f)] = map snd (take 1 (file_lines f))
   \<and> file_lines (snd (readline f)) = drop 1 (file_lines f)"
proof (cases "length (content f) \<le> pos f")
  case True
  then show ?thesis using readline_at_EOF[OF True] by (simp add: file_lines_EOF)
next
  case False
  then have "fst (readline f) \<noteq> []" using readline_Nil_iff[of f] by simp
  then show ?thesis using False file_lines_step[of f] by simp
qed

lemma read_3_lines_file_lines:
  "filter (\<lambda>x. length x > 0) (fst (read_3_lines f)) = map snd (take 3 (file_lines f))
   \<and> file_lines (snd (read_3_lines f)) = drop 3 (file_lines f)"
proof -
  obtain x1 f1 where r1: "readline f = (x1, f1)" by force
  obtain x2 f2 where r2: "readline f1 = (x2, f2)" by force
  obtain x3 f3 where r3: "readline f2 = (x3, f3)" by force
  let ?L = "file_lines f"
  have a1: "filter (\<lambda>x. length x > 0) [x1] = map snd (take 1 ?L)" and b1: "file_lines f1 = drop 1 ?L"
    using readline_file_lines[of f] r1 by simp_all
  have a2: "filter (\<lambda>x. length x > 0) [x2] = map snd (take 1 (drop 1 ?L))" and b2: "file_lines f2 = drop 2 ?L"
    using readline_file_lines[of f1] r2 b1 by (simp_all add: numeral_2_eq_2)
  have a3: "filter (\<lambda>x. length x > 0) [x3] = map snd (take 1 (drop 2 ?L))" and b3: "file_lines f3 = drop 3 ?L"
    using readline_file_lines[of f2] r3 b2 by (simp_all add: numeral_2_eq_2 numeral_3_eq_3)
  have "filter (\<lambda>x. length x > 0) [x1, x2, x3]
      = filter (\<lambda>x. length x > 0) [x1] @ filter (\<lambda>x. length x > 0) [x2] @ filter (\<lambda>x. length x > 0) [x3]"
    by simp
  also have "\<dots> = map snd (take 1 ?L @ take 1 (drop 1 ?L) @ take 1 (drop 2 ?L))"
    unfolding a1 a2 a3 by simp
  also have "take 1 ?L @ take 1 (drop 1 ?L) @ take 1 (drop 2 ?L) = take 3 ?L"
    by (metis (no_types) One_nat_def Suc_1 add_Suc_right add.right_neutral numeral_3_eq_3 take_add plus_1_eq_Suc append.assoc)
  finally show ?thesis using r1 r2 r3 b3 by (simp add: read_3_lines_def)
qed


lemma load_loop_index_of_lines:
  "(\<forall>e. index_of_lines (file_lines f) c n = Inl e \<longrightarrow> load_loop f c n = Inl e)
   \<and> (\<forall>m. index_of_lines (file_lines f) c n = Inr m \<longrightarrow> (\<exists>f'. load_loop f c n = Inr (m, f')))"
proof (induction f c n rule: load_loop.induct)
  case (1 f c n)
  have tl: "tell f = (pos f, flush f)" by (simp add: tell_def)
  obtain xs g where r: "read_3_lines (flush f) = (xs, g)" by force
  let ?L = "file_lines f"
  let ?raw = "filter (\<lambda>x. length x > 0) xs"
  have raw: "?raw = map snd (take 3 ?L)" and g: "file_lines g = drop 3 ?L"
    using read_3_lines_file_lines[of "flush f"] r by (simp_all add: file_lines_flush)
  show ?case
  proof (cases ?L)
    case Nil
    then have "?raw = []" using raw by simp
    then show ?thesis using Nil r tl by (simp add: load_loop.simps[of f])
  next
    case c1: (Cons a as)
    then have "pos f < length (content f)" using file_lines_Nil_iff[of f] by simp
    then have a: "fst a = pos f" using file_lines_step[of f] c1 by simp
    show ?thesis
    proof (cases as)
      case Nil
      then have "?raw = [snd a]" using raw c1 by simp
      then show ?thesis using c1 Nil r tl
        by (cases a) (simp add: load_loop.simps[of f] Let_def)
    next
      case c2: (Cons b bs)
      show ?thesis
      proof (cases bs)
        case Nil
        then have "?raw = [snd a, snd b]" using raw c1 c2 by simp
        then show ?thesis using c1 c2 Nil r tl
          by (cases a; cases b) (simp add: load_loop.simps[of f] Let_def)
      next
        case c3: (Cons d rest)
        obtain p1 l1 where a': "a = (p1, l1)" by (cases a)
        obtain p2 l2 where b': "b = (p2, l2)" by (cases b)
        obtain p3 l3 where d': "d = (p3, l3)" by (cases d)
        have L: "?L = (p1, l1) # (p2, l2) # (p3, l3) # rest" using c1 c2 c3 a' b' d' by simp
        have raw3: "?raw = [l1, l2, l3]" using raw L by simp
        have grest: "file_lines g = rest" using g L by simp
        have p1: "p1 = pos f" using a a' by simp
        show ?thesis
        proof (cases "length (chomp l2) = 8")
          case False
          then show ?thesis using L raw3 r tl
            by (simp add: load_loop.simps[of f] Let_def)
        next
          case True
          have step: "load_loop f c n = load_loop g (c(chomp l1 \<mapsto> (pos f, chomp l2))) (n + 3)"
            using True raw3 r tl by (simp add: load_loop.simps[of f] Let_def)
          have n0: "length ?raw \<noteq> 0" and n3: "\<not> length ?raw \<noteq> 3"
            and d8: "\<not> length (chomp (?raw ! 1)) \<noteq> 8"
            using raw3 True by simp_all
          have e: "?raw ! 0 = l1" "?raw ! 1 = l2" using raw3 by simp_all
          note ih0 = "1.IH"[OF tl[symmetric] r[symmetric] refl n0 n3 refl refl refl d8]
          have ih: "(\<forall>e. index_of_lines (file_lines g) (c(chomp l1 \<mapsto> (pos f, chomp l2))) (n + 3) = Inl e
                       \<longrightarrow> load_loop g (c(chomp l1 \<mapsto> (pos f, chomp l2))) (n + 3) = Inl e)
               \<and> (\<forall>m. index_of_lines (file_lines g) (c(chomp l1 \<mapsto> (pos f, chomp l2))) (n + 3) = Inr m
                       \<longrightarrow> (\<exists>f'. load_loop g (c(chomp l1 \<mapsto> (pos f, chomp l2))) (n + 3) = Inr (m, f')))"
            using ih0 unfolding e .
          show ?thesis using ih step L True grest p1 by simp
        qed
      qed
    qed
  qed
qed

lemma index_of_lines_Inr_iff:
  "index_of_lines L c n = Inr m \<longleftrightarrow>
     length L mod 3 = 0 \<and> dates_ok (records L) \<and> m = c ++ map_of (rev (records L))"
proof (induction L c n rule: index_of_lines.induct)
  case (2 p1 l1 p2 l2 p3 l3 rest c n)
  let ?c' = "c(chomp l1 \<mapsto> (p1, chomp l2))"
  have m: "?c' ++ map_of (rev (records rest))
      = c ++ map_of (rev (records ((p1, l1) # (p2, l2) # (p3, l3) # rest)))"
    by (simp add: map_add_upd_left)
  have len: "length ((p1, l1) # (p2, l2) # (p3, l3) # rest) mod 3 = length rest mod 3"
  proof -
    have "length ((p1, l1) # (p2, l2) # (p3, l3) # rest) = length rest + 3" by simp
    then show ?thesis by (simp only: mod_add_self2)
  qed
  show ?case
  proof (cases "length (chomp l2) = 8")
    case False
    then show ?thesis by (simp add: dates_ok_def)
  next
    case True
    have d: "dates_ok (records ((p1, l1) # (p2, l2) # (p3, l3) # rest)) = dates_ok (records rest)"
      using True by (simp add: dates_ok_def)
    have "(index_of_lines ((p1, l1) # (p2, l2) # (p3, l3) # rest) c n = Inr m)
        = (index_of_lines rest ?c' (n + 3) = Inr m)"
      using True by simp
    also have "\<dots> = (length rest mod 3 = 0 \<and> dates_ok (records rest)
                    \<and> m = ?c' ++ map_of (rev (records rest)))"
      by (rule "2.IH") (simp add: True)
    also have "\<dots> = (length ((p1, l1) # (p2, l2) # (p3, l3) # rest) mod 3 = 0
                    \<and> dates_ok (records ((p1, l1) # (p2, l2) # (p3, l3) # rest))
                    \<and> m = c ++ map_of (rev (records ((p1, l1) # (p2, l2) # (p3, l3) # rest))))"
      by (simp only: m len d)
    finally show ?thesis .
  qed
qed (auto simp add: dates_ok_def)


lemma groups_error_truncated:
  "index_of_lines L c n = Inl ValueError_not_groups_of_3 \<Longrightarrow> length L mod 3 \<noteq> 0"
proof (induction L c n rule: index_of_lines.induct)
  case (2 p1 l1 p2 l2 p3 l3 rest c n)
  have "length ((p1, l1) # (p2, l2) # (p3, l3) # rest) = length rest + 3" by simp
  then have len: "length ((p1, l1) # (p2, l2) # (p3, l3) # rest) mod 3 = length rest mod 3"
    by (simp only: mod_add_self2)
  have d: "\<not> length (chomp l2) \<noteq> 8" using "2.prems" by (auto split: if_splits)
  have e: "index_of_lines rest (c(chomp l1 \<mapsto> (p1, chomp l2))) (n + 3)
             = Inl ValueError_not_groups_of_3"
    using "2.prems" d by simp
  have "length rest mod 3 \<noteq> 0" by (rule "2.IH"[OF d e])
  then show ?case unfolding len .
qed simp_all

lemma truncated_groups_error:
  "dates_ok (records L) \<Longrightarrow> length L mod 3 \<noteq> 0 \<Longrightarrow>
     index_of_lines L c n = Inl ValueError_not_groups_of_3"
proof (induction L c n rule: index_of_lines.induct)
  case (2 p1 l1 p2 l2 p3 l3 rest c n)
  have "length ((p1, l1) # (p2, l2) # (p3, l3) # rest) = length rest + 3" by simp
  then have len: "length ((p1, l1) # (p2, l2) # (p3, l3) # rest) mod 3 = length rest mod 3"
    by (simp only: mod_add_self2)
  have d: "\<not> length (chomp l2) \<noteq> 8" and d2: "dates_ok (records rest)"
    using "2.prems"(1) by (simp_all add: dates_ok_def)
  have r: "length rest mod 3 \<noteq> 0" using "2.prems"(2) unfolding len .
  have "index_of_lines rest (c(chomp l1 \<mapsto> (p1, chomp l2))) (n + 3)
          = Inl ValueError_not_groups_of_3"
    by (rule "2.IH"[OF d d2 r])
  then show ?case using d by simp
qed simp_all

lemma bad_date_error:
  "\<not> dates_ok (records L) \<Longrightarrow> \<exists>k. index_of_lines L c n = Inl (ValueError_date_not_YYYYMMDD k)"
proof (induction L c n rule: index_of_lines.induct)
  case (2 p1 l1 p2 l2 p3 l3 rest c n)
  show ?case
  proof (cases "length (chomp l2) = 8")
    case True
    then have d: "\<not> length (chomp l2) \<noteq> 8" by simp
    have "\<not> dates_ok (records rest)" using "2.prems" True by (simp add: dates_ok_def)
    then obtain k where "index_of_lines rest (c(chomp l1 \<mapsto> (p1, chomp l2))) (n + 3)
          = Inl (ValueError_date_not_YYYYMMDD k)"
      using "2.IH"[OF d] by blast
    then show ?thesis using True by simp
  next
    case False
    then show ?thesis by simp
  qed
qed (simp_all add: dates_ok_def)

lemma map_of_rev_last_wins:
  assumes "i < length R" "\<forall>j. i < j \<and> j < length R \<longrightarrow> fst (R ! j) \<noteq> fst (R ! i)"
  shows "map_of (rev R) (fst (R ! i)) = Some (snd (R ! i))"
  using assms
proof (induction R rule: rev_induct)
  case Nil
  then show ?case by simp
next
  case (snoc x xs)
  show ?case
  proof (cases "i = length xs")
    case True
    then show ?thesis by (cases x) simp
  next
    case False
    then have i: "i < length xs" using snoc.prems(1) by simp
    have ne: "fst x \<noteq> fst (xs ! i)"
      using snoc.prems(2)[rule_format, of "length xs"] i by (simp add: nth_append)
    have "\<forall>j. i < j \<and> j < length xs \<longrightarrow> fst (xs ! j) \<noteq> fst (xs ! i)"
    proof (intro allI impI)
      fix j assume j: "i < j \<and> j < length xs"
      then show "fst (xs ! j) \<noteq> fst (xs ! i)"
        using snoc.prems(2)[rule_format, of j] i by (simp add: nth_append)
    qed
    then have "map_of (rev xs) (fst (xs ! i)) = Some (snd (xs ! i))" using snoc.IH i by simp
    then show ?thesis using i ne by (cases x) (auto simp: nth_append)
  qed
qed

lemma dom_map_of_rev: "dom (map_of (rev R)) = fst ` set R"
  by (simp add: dom_map_of_conv_image_fst)


text \<open>
  C1, as the spec states it, on a file of three lines whose second line is not a date of
  eight characters: the number of lines is a multiple of three, and loading fails.
\<close>

theorem C1_bad_date_counterexample:
  "length (cache_lines (io_open (''u'' @ [LF] @ ''2018'' @ [LF] @ ''{}'' @ [LF]) True)) mod 3 = 0
   \<and> load_existing_cache (io_open (''u'' @ [LF] @ ''2018'' @ [LF] @ ''{}'' @ [LF]) True)
        = Inl (ValueError_date_not_YYYYMMDD 2)"
  by (simp add: cache_lines_def file_lines.simps eval_defs)

text \<open>
  C1, amended. \<^verbatim>\<open>load_existing_cache\<close> has three outcomes. If some full group of
  three lines has a date line that is not eight characters long, it fails with the date
  format error. Otherwise, if the number of lines is not a multiple of three (one or two
  lines are left over at the end), it fails with the "not in groups of 3 lines" error.
  Otherwise, the empty file included, it succeeds, and the index has exactly the URLs of
  the records as keys, each mapped to the start position and the date of the last record
  with that URL.
\<close>

theorem C1_load_existing_cache_format:
  "(\<not> dates_ok (cache_records f) \<longrightarrow>
      (\<exists>k. load_existing_cache f = Inl (ValueError_date_not_YYYYMMDD k)))
   \<and> (dates_ok (cache_records f) \<and> length (cache_lines f) mod 3 \<noteq> 0 \<longrightarrow>
        load_existing_cache f = Inl ValueError_not_groups_of_3)
   \<and> (dates_ok (cache_records f) \<and> length (cache_lines f) mod 3 = 0 \<longrightarrow>
        (\<exists>f'. load_existing_cache f = Inr (map_of (rev (cache_records f)), f'))
        \<and> dom (map_of (rev (cache_records f))) = fst ` set (cache_records f)
        \<and> (\<forall>i < length (cache_records f).
              (\<forall>j. i < j \<and> j < length (cache_records f)
                    \<longrightarrow> fst (cache_records f ! j) \<noteq> fst (cache_records f ! i))
              \<longrightarrow> map_of (rev (cache_records f)) (fst (cache_records f ! i))
                    = Some (snd (cache_records f ! i))))"
proof (intro conjI impI)
  assume "\<not> dates_ok (cache_records f)"
  then obtain k where "index_of_lines (cache_lines f) Map.empty 0 = Inl (ValueError_date_not_YYYYMMDD k)"
    using bad_date_error[of "cache_lines f" Map.empty 0] by (auto simp: cache_records_def)
  then show "\<exists>k. load_existing_cache f = Inl (ValueError_date_not_YYYYMMDD k)"
    using load_loop_index_of_lines[of "seek 0 f" Map.empty 0]
    by (auto simp: load_existing_cache_def cache_lines_def)
next
  assume "dates_ok (cache_records f) \<and> length (cache_lines f) mod 3 \<noteq> 0"
  then have "index_of_lines (cache_lines f) Map.empty 0 = Inl ValueError_not_groups_of_3"
    using truncated_groups_error[of "cache_lines f" Map.empty 0] by (simp add: cache_records_def)
  then show "load_existing_cache f = Inl ValueError_not_groups_of_3"
    using load_loop_index_of_lines[of "seek 0 f" Map.empty 0]
    by (auto simp: load_existing_cache_def cache_lines_def)
next
  assume "dates_ok (cache_records f) \<and> length (cache_lines f) mod 3 = 0"
  then have "index_of_lines (cache_lines f) Map.empty 0 = Inr (map_of (rev (cache_records f)))"
    using index_of_lines_Inr_iff[of "cache_lines f" Map.empty 0 "map_of (rev (cache_records f))"]
    by (simp add: cache_records_def)
  then show "\<exists>f'. load_existing_cache f = Inr (map_of (rev (cache_records f)), f')"
    using load_loop_index_of_lines[of "seek 0 f" Map.empty 0]
    by (auto simp: load_existing_cache_def cache_lines_def)
next
  show "dom (map_of (rev (cache_records f))) = fst ` set (cache_records f)"
    by (rule dom_map_of_rev)
next
  show "\<forall>i < length (cache_records f).
              (\<forall>j. i < j \<and> j < length (cache_records f)
                    \<longrightarrow> fst (cache_records f ! j) \<noteq> fst (cache_records f ! i))
              \<longrightarrow> map_of (rev (cache_records f)) (fst (cache_records f ! i))
                    = Some (snd (cache_records f ! i))"
    using map_of_rev_last_wins[of _ "cache_records f"] by blast
qed


theorem C1_load_existing_cache_format_witness:
  "dates_ok (cache_records (io_open one_record_file True))
   \<and> length (cache_lines (io_open one_record_file True)) mod 3 = 0
   \<and> (\<exists>f'. load_existing_cache (io_open one_record_file True)
              = Inr ([''u'' \<mapsto> (0, ''20180816'')], f'))
   \<and> dates_ok (cache_records (io_open (one_record_file @ ''v'' @ [LF]) True))
   \<and> length (cache_lines (io_open (one_record_file @ ''v'' @ [LF]) True)) mod 3 \<noteq> 0
   \<and> load_existing_cache (io_open (one_record_file @ ''v'' @ [LF]) True)
        = Inl ValueError_not_groups_of_3
   \<and> dates_ok (cache_records (io_open [] True))
   \<and> length (cache_lines (io_open [] True)) mod 3 = 0
   \<and> (\<exists>f'. load_existing_cache (io_open [] True) = Inr (Map.empty, f'))
   \<and> \<not> dates_ok (cache_records (io_open (''u'' @ [LF] @ ''2018'' @ [LF] @ ''{}'' @ [LF]) True))
   \<and> (\<exists>k. load_existing_cache (io_open (''u'' @ [LF] @ ''2018'' @ [LF] @ ''{}'' @ [LF]) True)
              = Inl (ValueError_date_not_YYYYMMDD k))"
proof -
  let ?one = "io_open one_record_file True"
  let ?four = "io_open (one_record_file @ ''v'' @ [LF]) True"
  let ?none = "io_open [] True"
  let ?bad = "io_open (''u'' @ [LF] @ ''2018'' @ [LF] @ ''{}'' @ [LF]) True"
  have l1: "cache_lines ?one = [(0, ''u'' @ [LF]), (2, ''20180816'' @ [LF]), (11, ''{}'' @ [LF])]"
    by (simp add: cache_lines_def file_lines.simps eval_defs one_record_file_def)
  have l4: "cache_lines ?four
      = [(0, ''u'' @ [LF]), (2, ''20180816'' @ [LF]), (11, ''{}'' @ [LF]), (14, ''v'' @ [LF])]"
    by (simp add: cache_lines_def file_lines.simps eval_defs one_record_file_def)
  have l0: "cache_lines ?none = []"
    by (simp add: cache_lines_def file_lines.simps eval_defs)
  have lb: "cache_lines ?bad = [(0, ''u'' @ [LF]), (2, ''2018'' @ [LF]), (7, ''{}'' @ [LF])]"
    by (simp add: cache_lines_def file_lines.simps eval_defs)
  have r1: "cache_records ?one = [(''u'', (0, ''20180816''))]"
    unfolding cache_records_def l1 by (simp add: chomp_def rstrip_def)
  have r4: "cache_records ?four = [(''u'', (0, ''20180816''))]"
    unfolding cache_records_def l4 by (simp add: chomp_def rstrip_def)
  have r0: "cache_records ?none = []"
    unfolding cache_records_def l0 by simp
  have rb: "cache_records ?bad = [(''u'', (0, ''2018''))]"
    unfolding cache_records_def lb by (simp add: chomp_def rstrip_def)
  have h1: "dates_ok (cache_records ?one) \<and> length (cache_lines ?one) mod 3 = 0"
    unfolding r1 l1 by (simp add: dates_ok_def)
  have h4: "dates_ok (cache_records ?four) \<and> length (cache_lines ?four) mod 3 \<noteq> 0"
    unfolding r4 l4 by (simp add: dates_ok_def)
  have h0: "dates_ok (cache_records ?none) \<and> length (cache_lines ?none) mod 3 = 0"
    unfolding r0 l0 by (simp add: dates_ok_def)
  have hb: "\<not> dates_ok (cache_records ?bad)"
    unfolding rb by (simp add: dates_ok_def)
  have m1: "map_of (rev (cache_records ?one)) = [''u'' \<mapsto> (0, ''20180816'')]"
    unfolding r1 by simp
  have m0: "map_of (rev (cache_records ?none)) = Map.empty"
    unfolding r0 by simp
  have a: "\<exists>f'. load_existing_cache ?one = Inr ([''u'' \<mapsto> (0, ''20180816'')], f')"
    using C1_load_existing_cache_format [of ?one] h1 unfolding m1 by blast
  have b: "load_existing_cache ?four = Inl ValueError_not_groups_of_3"
    using C1_load_existing_cache_format [of ?four] h4 by blast
  have c: "\<exists>f'. load_existing_cache ?none = Inr (Map.empty, f')"
    using C1_load_existing_cache_format [of ?none] h0 unfolding m0 by blast
  have d: "\<exists>k. load_existing_cache ?bad = Inl (ValueError_date_not_YYYYMMDD k)"
    using C1_load_existing_cache_format [of ?bad] hb by blast
  show ?thesis using h1 h4 h0 hb a b c d by blast
qed

section \<open>Appending a record and loading the file again\<close>




lemma readline_text_suffix_last:
  "s \<noteq> [] \<Longrightarrow> last s = LF \<Longrightarrow> snd (readline_text s) = [] \<or> last (snd (readline_text s)) = LF"
proof (induction s)
  case Nil
  then show ?case by simp
next
  case (Cons c cs)
  show ?case
  proof (cases "cs = []")
    case True
    then show ?thesis using Cons.prems by (simp add: after_CR_def)
  next
    case False
    then have l: "last cs = LF" using Cons.prems by simp
    have "after_CR cs = [] \<or> last (after_CR cs) = LF"
      using False l by (cases cs) (auto simp: after_CR_def split: if_splits)
    then show ?thesis using False l Cons.IH[OF False l] by (auto split: prod.splits)
  qed
qed















end
